theory Spec2Isabelle
  imports Complex_Main "HOL-Library.Word"
begin

section \<open>Data model of the HOG class\<close>

text \<open>
  The class \<open>HOG\<close> (HOG.hpp, HOG.cpp) is embedded as it is written.
  \<^item> \<open>size_t\<close> is a 64-bit word: \<open>+\<close>, \<open>-\<close> wrap, \<open>div\<close> and the orders \<open>\<le>\<close>, \<open><\<close>
    are unsigned.
  \<^item> \<open>int\<close> (the fields of \<open>cv::Rect\<close>, \<open>cv::Mat::rows\<close>, \<open>cv::Mat::cols\<close>) is a 32-bit
    word read in two's complement: \<open><s\<close> is the signed order, \<open>scast\<close> the
    sign-extending conversion to \<open>size_t\<close>, \<open>ucast\<close> the truncating conversion
    back. Signed overflow is undefined in C++; the model wraps. No statement below depends
    on a wrapped signed result.
  \<^item> \<open>TType = float\<close>: the gradient maps, the votes and the histograms of \<open>process\<close>
    and \<open>retrieve\<close> are idealised as \<open>real\<close> (rounding, infinities and NaN are not
    modelled there), and the normalisation of a block is a parameter of that pipeline. The
    normalisation functions themselves are modelled in the binary32 format, with its
    rounding, its infinities and NaN.
  \<^item> A \<open>cv::Mat\<close> of floats is its two dimensions and its element function (row, column).
  \<^item> Exceptions are values of the type \<open>error\<close>; undefined behaviour that the source can
    reach (integer division by zero, unchecked \<open>operator[]\<close> out of range, a float-to-int
    cast of a value no \<open>int\<close> holds) is a value of that type too, so that no such step is
    silently given a result.
\<close>

type_synonym size_t = "64 word"
type_synonym cint = "32 word"
type_synonym TType = real
type_synonym THist = "TType list"

datatype error =
    ConfigInvalid       \<comment> \<open>\<open>std::runtime_error\<close> thrown by \<open>check_ctor_params\<close>\<close>
  | InvalidInput        \<comment> \<open>\<open>std::runtime_error\<close> thrown by \<open>process\<close>\<close>
  | WindowTooSmall      \<comment> \<open>first \<open>std::runtime_error\<close> of \<open>retrieve\<close>\<close>
  | WindowOutOfBounds   \<comment> \<open>second \<open>std::runtime_error\<close> of \<open>retrieve\<close>\<close>
  | NotProcessed        \<comment> \<open>named by the specification; no statement of the source throws it\<close>
  | OutOfRange          \<comment> \<open>\<open>std::out_of_range\<close> thrown by \<open>std::vector::at\<close>\<close>
  | CvAssertion         \<comment> \<open>\<open>cv::Exception\<close>: a region of interest outside its matrix\<close>
  | DivisionByZero      \<comment> \<open>undefined: \<open>size_t\<close> division by zero\<close>
  | OutOfBoundsAccess   \<comment> \<open>undefined: \<open>std::vector::operator[]\<close> past the end\<close>
  | FloatCastOverflow   \<comment> \<open>undefined: \<open>static_cast<int>\<close> of a float outside \<open>int\<close>\<close>

record Mat =
  mat_rows :: cint
  mat_cols :: cint
  mat_at :: "nat \<Rightarrow> nat \<Rightarrow> TType"

record Rect =
  rect_x :: cint
  rect_y :: cint
  rect_width :: cint
  rect_height :: cint

text \<open>
  The input image. \<open>img_data\<close> is \<open>img.data != nullptr\<close>. The gradient maps are computed
  by OpenCV (\<open>cv::filter2D\<close>, \<open>cv::magnitude\<close>, \<open>cv::phase\<close>), which is not part of the
  repository: \<open>img_magnitude\<close> and \<open>img_phase\<close> are the element values these calls
  produce for the image, taken as given. Both maps have the size of the image.
\<close>

record image =
  img_data :: bool
  img_rows :: cint
  img_cols :: cint
  img_magnitude :: "nat \<Rightarrow> nat \<Rightarrow> TType"
  img_phase :: "nat \<Rightarrow> nat \<Rightarrow> TType"

record hog =
  blocksize :: size_t
  cellsize :: size_t
  stride :: size_t
  grad_type :: size_t
  binning :: size_t
  bin_width :: size_t
  n_cells_per_block_y :: size_t
  n_cells_per_block_x :: size_t
  n_cells_per_block :: size_t
  block_hist_size :: size_t
  stride_unit :: size_t
  block_norm :: "THist \<Rightarrow> THist"
  n_cells_y :: size_t
  n_cells_x :: size_t
  mag :: Mat
  ori :: Mat
  cell_hists :: "THist list list"

definition GRADIENT_SIGNED :: size_t where
  "GRADIENT_SIGNED = 360"

definition GRADIENT_UNSIGNED :: size_t where
  "GRADIENT_UNSIGNED = 180"

section \<open>Block normalisation in binary32\<close>

text \<open>
  \<open>L1norm\<close>, \<open>L1sqrt\<close>, \<open>L2norm\<close> and \<open>L2hys\<close> compute in \<open>float\<close>, the IEEE 754
  binary32 format. A binary32 value is a finite number, an infinity or NaN. The finite
  values are the numbers \<open>m * 2^e\<close> with \<open>|m| < 2^24\<close> and \<open>-149 \<le> e \<le> 104\<close>; the model
  carries such a number as the real it is. The two zeros are one value here: they compare
  equal, and they differ in their effect only through the sign of a zero result and of a
  quotient by zero, a division that the guard \<open>den != 0\<close> of the source excludes.
\<close>

datatype binary32 = Finite real | PInf | NInf | NaN

text \<open>
  Rounding to nearest, ties to even, the rounding of every binary32 operation.
  \<open>round_even\<close> is the integer nearest to a real, the even one of two equally near.
  \<open>ulp_exponent x\<close> is the exponent of the unit in the last place at the magnitude
  \<open>x > 0\<close>: 24 significant bits, and no exponent below -149 (below \<open>2^-126\<close> the values
  are subnormal). \<open>nearest x\<close> is the magnitude of \<open>x\<close> rounded to a multiple of that
  unit, and \<open>fl x\<close> the binary32 value that \<open>x\<close> rounds to: an infinity when the
  rounded magnitude reaches \<open>2^128\<close>.
\<close>

definition round_even :: "real \<Rightarrow> int" where
  "round_even x =
     (let f = \<lfloor>x\<rfloor>; d = x - of_int f
      in if d < 1 / 2 then f else if 1 / 2 < d then f + 1 else if even f then f else f + 1)"

definition ulp_exponent :: "real \<Rightarrow> int" where
  "ulp_exponent x = max (- 149) (\<lfloor>log 2 x\<rfloor> - 23)"

definition ulp :: "real \<Rightarrow> real" where
  "ulp x = 2 powr of_int (ulp_exponent \<bar>x\<bar>)"

definition nearest :: "real \<Rightarrow> real" where
  "nearest x = of_int (round_even (\<bar>x\<bar> / ulp x)) * ulp x"

definition fl :: "real \<Rightarrow> binary32" where
  "fl x =
     (if x = 0 then Finite 0
      else if 2 ^ 128 \<le> nearest x then (if 0 < x then PInf else NInf)
      else Finite (if 0 < x then nearest x else - nearest x))"

text \<open>
  The operations \<open>+\<close>, \<open>*\<close>, \<open>/\<close> and \<open>std::sqrt\<close> on \<open>float\<close> are correctly
  rounded: the exact result, rounded, with the results that IEEE 754 gives to infinite
  and NaN operands. A quotient by zero is an infinity of the sign of the dividend (the
  zero taken as positive), or NaN for \<open>0 / 0\<close>.
\<close>

fun fadd :: "binary32 \<Rightarrow> binary32 \<Rightarrow> binary32" where
  "fadd (Finite a) (Finite b) = fl (a + b)"
| "fadd NaN y = NaN"
| "fadd x NaN = NaN"
| "fadd PInf NInf = NaN"
| "fadd NInf PInf = NaN"
| "fadd PInf y = PInf"
| "fadd x PInf = PInf"
| "fadd NInf y = NInf"
| "fadd x NInf = NInf"


fun fdiv :: "binary32 \<Rightarrow> binary32 \<Rightarrow> binary32" where
  "fdiv (Finite a) (Finite b) =
     (if b = 0 then (if a = 0 then NaN else if 0 < a then PInf else NInf) else fl (a / b))"
| "fdiv NaN y = NaN"
| "fdiv x NaN = NaN"
| "fdiv (Finite a) PInf = Finite 0"
| "fdiv (Finite a) NInf = Finite 0"
| "fdiv PInf (Finite b) = (if 0 \<le> b then PInf else NInf)"
| "fdiv NInf (Finite b) = (if 0 \<le> b then NInf else PInf)"
| "fdiv x y = NaN"

fun fsqrt :: "binary32 \<Rightarrow> binary32" where
  "fsqrt (Finite a) = (if a < 0 then NaN else fl (sqrt a))"
| "fsqrt PInf = PInf"
| "fsqrt NInf = NaN"
| "fsqrt NaN = NaN"

text \<open>
  The comparisons \<open><=\<close> and \<open><\<close>, false whenever an operand is NaN. The comparison
  \<open>den != 0\<close> is the inequality \<open>den \<noteq> Finite 0\<close>: it is true of NaN and the infinities.
\<close>

fun fle :: "binary32 \<Rightarrow> binary32 \<Rightarrow> bool" where
  "fle (Finite a) (Finite b) \<longleftrightarrow> a \<le> b"
| "fle NaN y \<longleftrightarrow> False"
| "fle x NaN \<longleftrightarrow> False"
| "fle NInf y \<longleftrightarrow> True"
| "fle x PInf \<longleftrightarrow> True"
| "fle x y \<longleftrightarrow> False"

fun flt :: "binary32 \<Rightarrow> binary32 \<Rightarrow> bool" where
  "flt (Finite a) (Finite b) \<longleftrightarrow> a < b"
| "flt NaN y \<longleftrightarrow> False"
| "flt x NaN \<longleftrightarrow> False"
| "flt PInf y \<longleftrightarrow> False"
| "flt x NInf \<longleftrightarrow> False"
| "flt x y \<longleftrightarrow> True"

text \<open>
  \<open>static constexpr TType epsilon = 1e-6\<close>: the literal converted to \<open>float\<close>, which is
  \<open>8796093 * 2^-43\<close>, the binary32 value nearest to \<open>1e-6\<close>.
\<close>

definition epsilon :: binary32 where
  "epsilon = Finite (8796093 / 8796093022208)"

text \<open>\<open>std::accumulate(begin, end, 0.0f)\<close>: a left fold of the binary32 addition from 0.\<close>

definition accumulate :: "binary32 list \<Rightarrow> binary32" where
  "accumulate v = foldl fadd (Finite 0) v"

definition L1norm :: "binary32 list \<Rightarrow> binary32 list" where
  "L1norm v =
     (let den = fadd (accumulate v) epsilon
      in if den \<noteq> Finite 0 then map (\<lambda>nom. fdiv nom den) v else v)"

definition L1sqrt :: "binary32 list \<Rightarrow> binary32 list" where
  "L1sqrt v = map fsqrt (L1norm v)"




text \<open>
  \<open>HOG::none\<close> leaves the block as it is; it is the normalisation of the examples of
  the pipeline below.
\<close>

definition none :: "THist \<Rightarrow> THist" where
  "none v = v"

section \<open>Construction\<close>

definition check_ctor_params ::
  "size_t \<Rightarrow> size_t \<Rightarrow> size_t \<Rightarrow> size_t \<Rightarrow> size_t \<Rightarrow> error + unit" where
  "check_ctor_params blocksize' cellsize' stride' binning' grad_type' =
     (if blocksize' < 2 then Inl ConfigInvalid
      else if cellsize' < 1 then Inl ConfigInvalid
      else if binning' < 2 then Inl ConfigInvalid
      else if grad_type' \<noteq> GRADIENT_UNSIGNED \<and> grad_type' \<noteq> GRADIENT_SIGNED
        then Inl ConfigInvalid
      else if blocksize' mod cellsize' \<noteq> 0 then Inl ConfigInvalid
      else if stride' mod cellsize' \<noteq> 0 then Inl ConfigInvalid
      else Inr ())"

text \<open>
  The six-argument constructor. C++ runs the member initialisers, in the order of
  declaration, before the constructor body, and the body is the call of
  \<open>check_ctor_params\<close>. Three initialisers divide: \<open>_bin_width(_grad_type / _binning)\<close>,
  \<open>_n_cells_per_block_y = _blocksize/_cellsize\<close> and \<open>_stride_unit = _stride/_cellsize\<close>.
  \<open>_n_cells_y\<close> and \<open>_n_cells_x\<close> have no initialiser; nothing modelled here reads them
  before \<open>process\<close> assigns them, and the model starts them at 0. \<open>mag\<close>, \<open>ori\<close> are empty
  matrices and \<open>_cell_hists\<close> is the empty vector.
\<close>

definition empty_Mat :: Mat where
  "empty_Mat = \<lparr>mat_rows = 0, mat_cols = 0, mat_at = (\<lambda>i j. 0)\<rparr>"

definition HOG ::
  "size_t \<Rightarrow> size_t \<Rightarrow> size_t \<Rightarrow> size_t \<Rightarrow> size_t \<Rightarrow> (THist \<Rightarrow> THist) \<Rightarrow> error + hog" where
  "HOG blocksize' cellsize' stride' binning' grad_type' block_norm' =
     (if binning' = 0 then Inl DivisionByZero
      else if cellsize' = 0 then Inl DivisionByZero
      else
        (let ncpb = blocksize' div cellsize'
         in case check_ctor_params blocksize' cellsize' stride' binning' grad_type' of
              Inl e \<Rightarrow> Inl e
            | Inr u \<Rightarrow>
                Inr \<lparr>blocksize = blocksize', cellsize = cellsize', stride = stride',
                     grad_type = grad_type', binning = binning',
                     bin_width = grad_type' div binning',
                     n_cells_per_block_y = ncpb, n_cells_per_block_x = ncpb,
                     n_cells_per_block = ncpb * ncpb,
                     block_hist_size = binning' * (ncpb * ncpb),
                     stride_unit = stride' div cellsize',
                     block_norm = block_norm',
                     n_cells_y = 0, n_cells_x = 0,
                     mag = empty_Mat, ori = empty_Mat, cell_hists = []\<rparr>))"

text \<open>The three shorter constructors fix the remaining arguments in their initialisers.\<close>

definition HOG1 :: "size_t \<Rightarrow> (THist \<Rightarrow> THist) \<Rightarrow> error + hog" where
  "HOG1 blocksize' block_norm' =
     HOG blocksize' (blocksize' div 2) (blocksize' div 2) 9 GRADIENT_UNSIGNED block_norm'"

definition HOG2 :: "size_t \<Rightarrow> size_t \<Rightarrow> (THist \<Rightarrow> THist) \<Rightarrow> error + hog" where
  "HOG2 blocksize' cellsize' block_norm' =
     HOG blocksize' cellsize' (blocksize' div 2) 9 GRADIENT_UNSIGNED block_norm'"

definition HOG3 :: "size_t \<Rightarrow> size_t \<Rightarrow> size_t \<Rightarrow> (THist \<Rightarrow> THist) \<Rightarrow> error + hog" where
  "HOG3 blocksize' cellsize' stride' block_norm' =
     HOG blocksize' cellsize' stride' 9 GRADIENT_UNSIGNED block_norm'"

section \<open>The cell pass: \<open>process\<close>\<close>

text \<open>
  A counted loop \<open>for (size_t i = 0; i < n; ++i) body\<close> runs its body on \<open>0, \<dots>, n - 1\<close>
  in order; an exception leaves the loop with the state as the body left it.
\<close>

fun for_loop :: "nat list \<Rightarrow> (nat \<Rightarrow> 's \<Rightarrow> error option \<times> 's) \<Rightarrow> 's \<Rightarrow> error option \<times> 's" where
  "for_loop [] body s = (None, s)"
| "for_loop (i # is) body s =
     (case body i s of
        (Some e, s') \<Rightarrow> (Some e, s')
      | (None, s') \<Rightarrow> for_loop is body s')"

text \<open>\<open>std::vector::resize(n)\<close> with value-initialised new elements \<open>d\<close>.\<close>

definition resize :: "nat \<Rightarrow> 'a \<Rightarrow> 'a list \<Rightarrow> 'a list" where
  "resize n d xs = take n xs @ replicate (n - length xs) d"

definition clear_internals :: "hog \<Rightarrow> hog" where
  "clear_internals h = h\<lparr>cell_hists := []\<rparr>"

definition magnitude_and_orientation :: "image \<Rightarrow> hog \<Rightarrow> hog" where
  "magnitude_and_orientation img h =
     h\<lparr>mag := \<lparr>mat_rows = img_rows img, mat_cols = img_cols img, mat_at = img_magnitude img\<rparr>,
       ori := \<lparr>mat_rows = img_rows img, mat_cols = img_cols img, mat_at = img_phase img\<rparr>\<rparr>"

text \<open>
  \<open>cv::Mat(m, roi)\<close>: the view of \<open>m\<close> on the rectangle \<open>roi\<close>. OpenCV asserts that the
  rectangle lies inside the matrix and throws otherwise.
\<close>

definition Mat_roi :: "Mat \<Rightarrow> Rect \<Rightarrow> error + Mat" where
  "Mat_roi m roi =
     (if 0 \<le> sint (rect_x roi) \<and> 0 \<le> sint (rect_width roi)
         \<and> sint (rect_x roi) + sint (rect_width roi) \<le> sint (mat_cols m)
         \<and> 0 \<le> sint (rect_y roi) \<and> 0 \<le> sint (rect_height roi)
         \<and> sint (rect_y roi) + sint (rect_height roi) \<le> sint (mat_rows m)
      then Inr \<lparr>mat_rows = rect_height roi, mat_cols = rect_width roi,
                mat_at = (\<lambda>i j. mat_at m (nat (sint (rect_y roi)) + i)
                                         (nat (sint (rect_x roi)) + j))\<rparr>
      else Inl CvAssertion)"

text \<open>
  \<open>static_cast<int>(q)\<close> of a float: the value truncated towards zero when an \<open>int\<close>
  holds it, undefined otherwise.
\<close>

definition cast_int :: "TType \<Rightarrow> error + cint" where
  "cast_int q =
     (let t = (if 0 \<le> q then \<lfloor>q\<rfloor> else \<lceil>q\<rceil>)
      in if - (2 ^ 31) \<le> t \<and> t < 2 ^ 31 then Inr (word_of_int t) else Inl FloatCastOverflow)"

text \<open>
  The statement \<open>cell_hist.at(static_cast<int>(orientation / _bin_width)) += magnitude\<close>.
  \<open>_bin_width\<close> is a \<open>size_t\<close> converted to float for the division; dividing by a zero
  \<open>_bin_width\<close> gives an infinity or NaN, which no \<open>int\<close> holds. The \<open>int\<close> index is
  converted to \<open>size_t\<close> for \<open>at\<close>, which throws unless the index is below the size.
\<close>

definition bin_vote :: "hog \<Rightarrow> TType \<Rightarrow> TType \<Rightarrow> THist \<Rightarrow> error option \<times> THist" where
  "bin_vote h orientation magnitude cell_hist =
     (if bin_width h = 0 then (Some FloatCastOverflow, cell_hist)
      else case cast_int (orientation / real (unat (bin_width h))) of
             Inl e \<Rightarrow> (Some e, cell_hist)
           | Inr k \<Rightarrow>
               (let n = unat (scast k :: size_t)
                in if n < length cell_hist
                   then (None, cell_hist[n := cell_hist ! n + magnitude])
                   else (Some OutOfRange, cell_hist)))"

definition process_cell :: "hog \<Rightarrow> Mat \<Rightarrow> Mat \<Rightarrow> error + THist" where
  "process_cell h cell_mag cell_ori =
     (let cell_hist = replicate (unat (binning h)) 0;
          rows = unat (scast (mat_rows cell_mag) :: size_t);
          cols = unat (scast (mat_cols cell_mag) :: size_t);
          r = (if grad_type h = GRADIENT_SIGNED
               then for_loop [0..<rows] (\<lambda>i.
                      for_loop [0..<cols] (\<lambda>j.
                        bin_vote h (mat_at cell_ori i j) (mat_at cell_mag i j))) cell_hist
               else for_loop [0..<rows] (\<lambda>i.
                      for_loop [0..<cols] (\<lambda>j cell_hist.
                        let orientation = mat_at cell_ori i j;
                            orientation = (if orientation \<ge> 180 then orientation - 180
                                           else orientation)
                        in bin_vote h orientation (mat_at cell_mag i j) cell_hist)) cell_hist)
      in case r of (Some e, cell_hist) \<Rightarrow> Inl e | (None, cell_hist) \<Rightarrow> Inr cell_hist)"

text \<open>
  The body of the inner loop of \<open>process\<close>: the cell rectangle, the two views, the cell
  histogram, and the assignment \<open>_cell_hists[i][j] = cell_hist\<close>.
\<close>

definition process_one_cell :: "nat \<Rightarrow> nat \<Rightarrow> hog \<Rightarrow> error option \<times> hog" where
  "process_one_cell i j h =
     (let cell_rect = \<lparr>rect_x = ucast (of_nat j * cellsize h),
                       rect_y = ucast (of_nat i * cellsize h),
                       rect_width = ucast (cellsize h),
                       rect_height = ucast (cellsize h)\<rparr>
      in case Mat_roi (mag h) cell_rect of
           Inl e \<Rightarrow> (Some e, h)
         | Inr cell_mag \<Rightarrow>
             (case Mat_roi (ori h) cell_rect of
                Inl e \<Rightarrow> (Some e, h)
              | Inr cell_ori \<Rightarrow>
                  (case process_cell h cell_mag cell_ori of
                     Inl e \<Rightarrow> (Some e, h)
                   | Inr cell_hist \<Rightarrow>
                       if i < length (cell_hists h) \<and> j < length (cell_hists h ! i)
                       then (None, h\<lparr>cell_hists :=
                                       (cell_hists h)[i := (cell_hists h ! i)[j := cell_hist]]\<rparr>)
                       else (Some OutOfBoundsAccess, h))))"

text \<open>
  The conversion of a pixel count to cell units, \<open>static_cast<int>(v/_cellsize)\<close> stored
  in a \<open>size_t\<close>: the \<open>int\<close> \<open>v\<close> is converted to \<open>size_t\<close> and divided there, the
  quotient is cast to \<open>int\<close> and converted back. \<open>process\<close> and \<open>retrieve\<close> both use it.
\<close>

definition to_cell_units :: "cint \<Rightarrow> size_t \<Rightarrow> size_t" where
  "to_cell_units v cellsize' = scast (ucast (scast v div cellsize') :: cint)"

definition process_row :: "nat \<Rightarrow> hog \<Rightarrow> error option \<times> hog" where
  "process_row i h =
     (if i < length (cell_hists h)
      then for_loop [0..<unat (n_cells_x h)] (process_one_cell i)
             (h\<lparr>cell_hists :=
                  (cell_hists h)[i := resize (unat (n_cells_x h)) [] (cell_hists h ! i)]\<rparr>)
      else (Some OutOfBoundsAccess, h))"

definition process :: "image \<Rightarrow> hog \<Rightarrow> error option \<times> hog" where
  "process img h =
     (if \<not> img_data img then (Some InvalidInput, h)
      else if scast (img_rows img) < blocksize h \<or> scast (img_cols img) < blocksize h
        then (Some InvalidInput, h)
      else
        (let h = clear_internals h;
             h = magnitude_and_orientation img h
         in if cellsize h = 0 then (Some DivisionByZero, h)
            else
              (let h = h\<lparr>n_cells_y := to_cell_units (mat_rows (mag h)) (cellsize h)\<rparr>;
                   h = h\<lparr>n_cells_x := to_cell_units (mat_cols (mag h)) (cellsize h)\<rparr>;
                   h = h\<lparr>cell_hists := resize (unat (n_cells_y h)) [] (cell_hists h)\<rparr>
               in for_loop [0..<unat (n_cells_y h)] process_row h)))"

section \<open>The block pass: \<open>retrieve\<close>\<close>

text \<open>
  The two inner loops of \<open>retrieve\<close> collect the histograms of the cells of one block.
  Their counters are \<open>size_t\<close> and their bounds the wrapping sums
  \<open>block_x + _n_cells_per_block_x\<close> and \<open>block_y + _n_cells_per_block_y\<close>.
  \<open>_cell_hists[cell_y][cell_x]\<close> is unchecked.
\<close>

lemma word_less_not_max: "(x::'a::len word) < y \<Longrightarrow> x \<noteq> - 1"
  by (metis word_order.extremum_strict)

lemma unat_inc: "(x::'a::len word) < y \<Longrightarrow> unat (x + 1) = Suc (unat x)"
proof -
  assume "x < y"
  then have "x \<noteq> - 1" by (rule word_less_not_max)
  then have "1 + x \<noteq> 0" by (simp add: add_eq_0_iff)
  then show ?thesis using unatSuc [of x] by (simp add: add.commute)
qed

function cell_x_loop :: "hog \<Rightarrow> size_t \<Rightarrow> size_t \<Rightarrow> size_t \<Rightarrow> THist \<Rightarrow> error + THist" where
  "cell_x_loop h cell_y x_end cell_x block_hist =
     (if cell_x < x_end
      then if unat cell_y < length (cell_hists h)
              \<and> unat cell_x < length (cell_hists h ! unat cell_y)
           then cell_x_loop h cell_y x_end (cell_x + 1)
                  (block_hist @ cell_hists h ! unat cell_y ! unat cell_x)
           else Inl OutOfBoundsAccess
      else Inr block_hist)"
  by pat_completeness auto
termination
  by (relation "measure (\<lambda>(h, cell_y, x_end, cell_x, block_hist). unat x_end - unat cell_x)")
    (auto simp: word_less_nat_alt unat_inc)

function cell_y_loop :: "hog \<Rightarrow> size_t \<Rightarrow> size_t \<Rightarrow> size_t \<Rightarrow> THist \<Rightarrow> error + THist" where
  "cell_y_loop h block_x y_end cell_y block_hist =
     (if cell_y < y_end
      then case cell_x_loop h cell_y (block_x + n_cells_per_block_x h) block_x block_hist of
             Inl e \<Rightarrow> Inl e
           | Inr block_hist' \<Rightarrow> cell_y_loop h block_x y_end (cell_y + 1) block_hist'
      else Inr block_hist)"
  by pat_completeness auto
termination
  by (relation "measure (\<lambda>(h, block_x, y_end, cell_y, block_hist). unat y_end - unat cell_y)")
    (auto simp: word_less_nat_alt unat_inc)

declare cell_x_loop.simps [simp del]
declare cell_y_loop.simps [simp del]

text \<open>
  The two outer loops step the block position by \<open>_stride_unit\<close> while it is at most the
  last position, both in \<open>size_t\<close>. Nothing bounds the number of their iterations: with
  a zero \<open>_stride_unit\<close> the position never moves. They are partial functions, and not
  returning is the value \<open>None\<close>. \<open>hog_hist\<close> is the output vector built so far.
\<close>

partial_function (option) block_x_loop ::
  "hog \<Rightarrow> size_t \<Rightarrow> size_t \<Rightarrow> size_t \<Rightarrow> THist \<Rightarrow> (error + THist) option" where
  "block_x_loop h block_y x_last block_x hog_hist =
     (if block_x \<le> x_last
      then case cell_y_loop h block_x (block_y + n_cells_per_block_y h) block_y [] of
             Inl e \<Rightarrow> Some (Inl e)
           | Inr block_hist \<Rightarrow>
               block_x_loop h block_y x_last (block_x + stride_unit h)
                 (hog_hist @ block_norm h block_hist)
      else Some (Inr hog_hist))"

partial_function (option) block_y_loop ::
  "hog \<Rightarrow> size_t \<Rightarrow> size_t \<Rightarrow> size_t \<Rightarrow> size_t \<Rightarrow> THist \<Rightarrow> (error + THist) option" where
  "block_y_loop h x x_last y_last block_y hog_hist =
     (if block_y \<le> y_last
      then case block_x_loop h block_y x_last x hog_hist of
             None \<Rightarrow> None
           | Some (Inl e) \<Rightarrow> Some (Inl e)
           | Some (Inr hog_hist') \<Rightarrow>
               block_y_loop h x x_last y_last (block_y + stride_unit h) hog_hist'
      else Some (Inr hog_hist))"

text \<open>
  \<open>retrieve\<close> is a non-const member function: the model returns the object with the
  result. The comparison of the \<open>int\<close> window size with the \<open>size_t\<close> block size
  converts the \<open>int\<close>; the comparison with the matrix size is between \<open>int\<close>s.
\<close>

definition retrieve :: "Rect \<Rightarrow> hog \<Rightarrow> ((error + THist) \<times> hog) option" where
  "retrieve window h =
     (if scast (rect_height window) < blocksize h \<or> scast (rect_width window) < blocksize h
        then Some (Inl WindowTooSmall, h)
      else if mat_cols (mag h) - rect_width window <s rect_x window
              \<or> mat_rows (mag h) - rect_height window <s rect_y window
        then Some (Inl WindowOutOfBounds, h)
      else if cellsize h = 0 then Some (Inl DivisionByZero, h)
      else
        (let x = to_cell_units (rect_x window) (cellsize h);
             y = to_cell_units (rect_y window) (cellsize h);
             width = to_cell_units (rect_width window) (cellsize h);
             height = to_cell_units (rect_height window) (cellsize h)
         in map_option (\<lambda>r. (r, h))
              (block_y_loop h x (x + width - n_cells_per_block_x h)
                 (y + height - n_cells_per_block_y h) y [])))"

section \<open>Invariants and the descriptor as the specification words it\<close>

text \<open>
  The class invariant on the const members: the values the constructor's initialisers
  compute from arguments that \<open>check_ctor_params\<close> accepts.
\<close>

definition valid_config :: "hog \<Rightarrow> bool" where
  "valid_config h \<longleftrightarrow>
     check_ctor_params (blocksize h) (cellsize h) (stride h) (binning h) (grad_type h) = Inr ()
     \<and> bin_width h = grad_type h div binning h
     \<and> n_cells_per_block_y h = blocksize h div cellsize h
     \<and> n_cells_per_block_x h = n_cells_per_block_y h
     \<and> n_cells_per_block h = n_cells_per_block_y h * n_cells_per_block_x h
     \<and> block_hist_size h = binning h * n_cells_per_block h
     \<and> stride_unit h = stride h div cellsize h"

text \<open>
  A valid window: its origin is not negative, it is at least a block wide and high, and it
  lies inside the gradient maps.
\<close>

definition valid_window :: "Rect \<Rightarrow> hog \<Rightarrow> bool" where
  "valid_window window h \<longleftrightarrow>
     0 \<le> sint (rect_x window) \<and> 0 \<le> sint (rect_y window)
     \<and> uint (blocksize h) \<le> sint (rect_width window)
     \<and> uint (blocksize h) \<le> sint (rect_height window)
     \<and> sint (rect_x window) + sint (rect_width window) \<le> sint (mat_cols (mag h))
     \<and> sint (rect_y window) + sint (rect_height window) \<le> sint (mat_rows (mag h))"

text \<open>The object but for its grid, and the object as \<open>process\<close> sets it up for an image.\<close>

definition frame :: "hog \<Rightarrow> hog" where
  "frame h = h\<lparr>cell_hists := []\<rparr>"

definition image_maps :: "image \<Rightarrow> hog \<Rightarrow> hog" where
  "image_maps img h =
     (magnitude_and_orientation img h)
       \<lparr>n_cells_y := to_cell_units (img_rows img) (cellsize h),
        n_cells_x := to_cell_units (img_cols img) (cellsize h)\<rparr>"

text \<open>A grid of \<open>ny\<close> rows of \<open>nx\<close> histograms of \<open>b\<close> bins each.\<close>

definition grid_shape :: "nat \<Rightarrow> nat \<Rightarrow> nat \<Rightarrow> THist list list \<Rightarrow> bool" where
  "grid_shape ny nx b g \<longleftrightarrow>
     length g = ny \<and> (\<forall>i<ny. length (g ! i) = nx \<and> (\<forall>j<nx. length (g ! i ! j) = b))"

text \<open>
  The descriptor in the words of the specification (sections 3, 4.3 and 8), on natural
  numbers. A block at cell position \<open>(block_y, block_x)\<close> is the row-major concatenation
  of the histograms of its \<open>cpb \<times> cpb\<close> cells. The block positions of one axis start at
  the window's first cell and step by \<open>stride / cellsize\<close> cells; the last one is at most
  \<open>start + extent - cpb\<close>, which makes \<open>(extent - cpb) div step + 1\<close> positions. The
  descriptor concatenates the normalised blocks, the y positions in the outer loop.
  \<open>cells\<close> is the conversion of a pixel coordinate to cell units, the integer division
  by the cell size.
\<close>

definition block_cells :: "THist list list \<Rightarrow> nat \<Rightarrow> nat \<Rightarrow> nat \<Rightarrow> THist" where
  "block_cells grid cpb block_y block_x =
     concat (map (\<lambda>cell_y. concat (map (\<lambda>cell_x. grid ! cell_y ! cell_x)
                                       [block_x..<block_x + cpb]))
                 [block_y..<block_y + cpb])"

definition n_blocks :: "nat \<Rightarrow> nat \<Rightarrow> nat \<Rightarrow> nat" where
  "n_blocks extent cpb step = (extent - cpb) div step + 1"

definition block_positions :: "nat \<Rightarrow> nat \<Rightarrow> nat \<Rightarrow> nat \<Rightarrow> nat list" where
  "block_positions start extent cpb step =
     map (\<lambda>k. start + k * step) [0..<n_blocks extent cpb step]"

definition cells :: "hog \<Rightarrow> cint \<Rightarrow> nat" where
  "cells h v = nat (sint v) div unat (cellsize h)"

definition descriptor :: "hog \<Rightarrow> Rect \<Rightarrow> THist" where
  "descriptor h window =
     (let x = cells h (rect_x window);
          y = cells h (rect_y window);
          width = cells h (rect_width window);
          height = cells h (rect_height window);
          cpb = unat (blocksize h) div unat (cellsize h);
          step = unat (stride h) div unat (cellsize h)
      in concat (map (\<lambda>block_y.
           concat (map (\<lambda>block_x. block_norm h (block_cells (cell_hists h) cpb block_y block_x))
                       (block_positions x width cpb step)))
           (block_positions y height cpb step)))"

text \<open>
  Two successive calls of \<open>retrieve\<close> with the same window on one object, the second on
  the object as the first left it; and the length of the vector a call returned, if it
  returned one.
\<close>

definition retrieve_twice ::
  "Rect \<Rightarrow> hog \<Rightarrow> ((error + THist) \<times> (error + THist) \<times> hog) option" where
  "retrieve_twice window h =
     (case retrieve window h of
        None \<Rightarrow> None
      | Some (r1, h1) \<Rightarrow>
          (case retrieve window h1 of
             None \<Rightarrow> None
           | Some (r2, h2) \<Rightarrow> Some (r1, r2, h2)))"

definition result_length :: "((error + THist) \<times> hog) option \<Rightarrow> nat option" where
  "result_length r = (case r of Some (Inr v, h) \<Rightarrow> Some (length v) | _ \<Rightarrow> None)"

text \<open>
  The bin of claim C1: the floor of the effective orientation over the real quotient
  \<open>gradient_range / bin_count\<close>.
\<close>

definition effective_orientation :: "size_t \<Rightarrow> TType \<Rightarrow> TType" where
  "effective_orientation grad_type' raw =
     (if grad_type' = GRADIENT_SIGNED then raw else if raw \<ge> 180 then raw - 180 else raw)"

definition voting_bin :: "size_t \<Rightarrow> size_t \<Rightarrow> TType \<Rightarrow> int" where
  "voting_bin grad_type' binning' raw =
     \<lfloor>effective_orientation grad_type' raw / (real (unat grad_type') / real (unat binning'))\<rfloor>"

text \<open>
  The histogram of a cell in the words of the specification (section 4.2): from zeros,
  every pixel of the cell, row by row, adds its magnitude to its bin. \<open>cell_view\<close> is
  the cell \<open>(i, j)\<close> of a map, a square of \<open>cell_size\<close> pixels from
  \<open>(i * cell_size, j * cell_size)\<close>.
\<close>

definition vote :: "int \<Rightarrow> TType \<Rightarrow> THist \<Rightarrow> THist" where
  "vote k magnitude cell_hist = cell_hist[nat k := cell_hist ! nat k + magnitude]"

definition cell_voting :: "hog \<Rightarrow> Mat \<Rightarrow> Mat \<Rightarrow> THist" where
  "cell_voting h cell_mag cell_ori =
     fold (\<lambda>i. fold (\<lambda>j. vote (voting_bin (grad_type h) (binning h) (mat_at cell_ori i j))
                              (mat_at cell_mag i j))
                    [0..<unat (scast (mat_cols cell_mag) :: size_t)])
          [0..<unat (scast (mat_rows cell_mag) :: size_t)]
          (replicate (unat (binning h)) 0)"

definition cell_view :: "size_t \<Rightarrow> (nat \<Rightarrow> nat \<Rightarrow> TType) \<Rightarrow> nat \<Rightarrow> nat \<Rightarrow> Mat" where
  "cell_view c f i j =
     \<lparr>mat_rows = ucast c, mat_cols = ucast c,
      mat_at = (\<lambda>y x. f (i * unat c + y) (j * unat c + x))\<rparr>"

text \<open>
  The binary32 values that arithmetic produces and a \<open>float\<close> holds: a finite one is a
  number that rounding leaves as it is. \<open>is_finite\<close> excludes the infinities and NaN,
  and \<open>value_of\<close> is the number a finite value stands for.
\<close>

definition is_binary32 :: "binary32 \<Rightarrow> bool" where
  "is_binary32 x = (case x of Finite r \<Rightarrow> fl r = Finite r | _ \<Rightarrow> True)"

definition is_finite :: "binary32 \<Rightarrow> bool" where
  "is_finite x = (case x of Finite r \<Rightarrow> True | _ \<Rightarrow> False)"

definition value_of :: "binary32 \<Rightarrow> real" where
  "value_of x = (case x of Finite r \<Rightarrow> r | _ \<Rightarrow> 0)"

section \<open>Example inputs\<close>

text \<open>
  Concrete objects for the closed theorems below: an image with data whose magnitude is 1
  and whose orientation is \<open>a\<close> everywhere, the object the six-argument constructor
  builds in unsigned mode with the identity normalisation \<open>none\<close>, a window, and a
  one-pixel cell.
\<close>

definition example_image :: "cint \<Rightarrow> cint \<Rightarrow> TType \<Rightarrow> image" where
  "example_image rows cols a =
     \<lparr>img_data = True, img_rows = rows, img_cols = cols,
      img_magnitude = (\<lambda>i j. 1), img_phase = (\<lambda>i j. a)\<rparr>"

definition example_hog :: "size_t \<Rightarrow> size_t \<Rightarrow> size_t \<Rightarrow> size_t \<Rightarrow> hog" where
  "example_hog blocksize' cellsize' stride' binning' =
     projr (HOG blocksize' cellsize' stride' binning' GRADIENT_UNSIGNED none)"

definition example_window :: "cint \<Rightarrow> cint \<Rightarrow> cint \<Rightarrow> cint \<Rightarrow> Rect" where
  "example_window x y w h = \<lparr>rect_x = x, rect_y = y, rect_width = w, rect_height = h\<rparr>"

definition example_cell :: "TType \<Rightarrow> Mat" where
  "example_cell a = \<lparr>mat_rows = 1, mat_cols = 1, mat_at = (\<lambda>i j. a)\<rparr>"

section \<open>Loops and the cell pass\<close>

lemma for_loop_invariant:
  assumes "P s"
    and "\<And>i s e s'. i \<in> set js \<Longrightarrow> P s \<Longrightarrow> body i s = (e, s') \<Longrightarrow> P s'"
  shows "P (snd (for_loop js body s))"
  using assms
proof (induction js arbitrary: s)
  case Nil
  then show ?case by simp
next
  case (Cons j js)
  obtain e s' where b: "body j s = (e, s')" by (cases "body j s")
  have P': "P s'" using Cons.prems(2) [of j s e s'] Cons.prems(1) b by simp
  show ?case
  proof (cases e)
    case None
    have "P (snd (for_loop js body s'))"
      by (rule Cons.IH [OF P']) (use Cons.prems(2) in auto)
    then show ?thesis using b None by simp
  next
    case (Some a)
    then show ?thesis using b P' by simp
  qed
qed

lemma for_loop_from_success:
  assumes "fst (for_loop [k..<n] body s) = None"
    and "I k s"
    and "\<And>i s s'. k \<le> i \<Longrightarrow> i < n \<Longrightarrow> I i s \<Longrightarrow> body i s = (None, s') \<Longrightarrow> I (Suc i) s'"
    and "k \<le> n"
  shows "I n (snd (for_loop [k..<n] body s))"
  using assms
proof (induction "n - k" arbitrary: k s)
  case 0
  then show ?case by simp
next
  case (Suc d)
  then have kn: "k < n" by linarith
  then have u: "[k..<n] = k # [Suc k..<n]" by (simp add: upt_rec)
  obtain e s' where b: "body k s = (e, s')" by (cases "body k s")
  have e: "e = None" using Suc.prems(1) b u by (cases e) simp_all
  have I': "I (Suc k) s'" using Suc.prems(3) [of k s s'] Suc.prems(2) kn b e by simp
  have f: "fst (for_loop [Suc k..<n] body s') = None" using Suc.prems(1) b e u by simp
  have "I n (snd (for_loop [Suc k..<n] body s'))"
  proof (rule Suc.hyps(1) [OF _ f I'])
    show "d = n - Suc k" using Suc.hyps(2) by linarith
    show "\<And>i s s'. Suc k \<le> i \<Longrightarrow> i < n \<Longrightarrow> I i s \<Longrightarrow> body i s = (None, s') \<Longrightarrow> I (Suc i) s'"
      using Suc.prems(3) by simp
    show "Suc k \<le> n" using kn by simp
  qed
  then show ?case using b e u by simp
qed

lemma for_loop_success:
  assumes "fst (for_loop [0..<n] body s) = None"
    and "I 0 s"
    and "\<And>i s s'. i < n \<Longrightarrow> I i s \<Longrightarrow> body i s = (None, s') \<Longrightarrow> I (Suc i) s'"
  shows "I n (snd (for_loop [0..<n] body s))"
  using assms by (intro for_loop_from_success [where I = I and k = 0]) auto

lemma bin_vote_length: "bin_vote h a m hist = (e, hist') \<Longrightarrow> length hist' = length hist"
  by (auto simp: bin_vote_def Let_def split: if_splits sum.splits)

lemma process_cell_length:
  assumes "process_cell h cm co = Inr hist"
  shows "length hist = unat (binning h)"
proof -
  let ?P = "\<lambda>c :: THist. length c = unat (binning h)"
  have inner: "?P (snd (for_loop js (\<lambda>j. bin_vote h (f j) (g j)) c))" if "?P c" for js f g c
    by (rule for_loop_invariant [where P = ?P, OF that]) (simp add: bin_vote_length)
  have rows: "?P (snd (for_loop is (\<lambda>i. for_loop js (\<lambda>j. bin_vote h (f i j) (g i j))) c))"
    if "?P c" for "is" js f g c
  proof (rule for_loop_invariant [where P = ?P, OF that])
    fix i s e s'
    assume "?P s" and b: "for_loop js (\<lambda>j. bin_vote h (f i j) (g i j)) s = (e, s')"
    then have "?P (snd (for_loop js (\<lambda>j. bin_vote h (f i j) (g i j)) s))" by (intro inner)
    then show "?P s'" using b by simp
  qed
  have start: "?P (replicate (unat (binning h)) 0)" by simp
  let ?rs = "[0..<unat (scast (mat_rows cm) :: size_t)]"
  let ?cs = "[0..<unat (scast (mat_cols cm) :: size_t)]"
  show ?thesis
    using assms rows [OF start, of ?rs ?cs "mat_at co" "mat_at cm"]
      rows [OF start, of ?rs ?cs
        "\<lambda>i j. if mat_at co i j \<ge> 180 then mat_at co i j - 180 else mat_at co i j" "mat_at cm"]
    by (auto simp: process_cell_def Let_def split: if_splits prod.splits option.splits)
qed

lemma frame_fields:
  assumes "frame s = frame t"
  shows "blocksize s = blocksize t" "cellsize s = cellsize t" "stride s = stride t"
    "grad_type s = grad_type t" "binning s = binning t" "bin_width s = bin_width t"
    "n_cells_per_block_y s = n_cells_per_block_y t" "n_cells_per_block_x s = n_cells_per_block_x t"
    "n_cells_per_block s = n_cells_per_block t" "block_hist_size s = block_hist_size t"
    "stride_unit s = stride_unit t" "block_norm s = block_norm t"
    "n_cells_y s = n_cells_y t" "n_cells_x s = n_cells_x t" "mag s = mag t" "ori s = ori t"
proof -
  have f: "\<And>sel. sel (frame s) = sel (frame t)" using assms by simp
  show "blocksize s = blocksize t" using f [of blocksize] by (simp add: frame_def)
  show "cellsize s = cellsize t" using f [of cellsize] by (simp add: frame_def)
  show "stride s = stride t" using f [of stride] by (simp add: frame_def)
  show "grad_type s = grad_type t" using f [of grad_type] by (simp add: frame_def)
  show "binning s = binning t" using f [of binning] by (simp add: frame_def)
  show "bin_width s = bin_width t" using f [of bin_width] by (simp add: frame_def)
  show "n_cells_per_block_y s = n_cells_per_block_y t"
    using f [of n_cells_per_block_y] by (simp add: frame_def)
  show "n_cells_per_block_x s = n_cells_per_block_x t"
    using f [of n_cells_per_block_x] by (simp add: frame_def)
  show "n_cells_per_block s = n_cells_per_block t"
    using f [of n_cells_per_block] by (simp add: frame_def)
  show "block_hist_size s = block_hist_size t" using f [of block_hist_size] by (simp add: frame_def)
  show "stride_unit s = stride_unit t" using f [of stride_unit] by (simp add: frame_def)
  show "block_norm s = block_norm t" using f [of block_norm] by (simp add: frame_def)
  show "n_cells_y s = n_cells_y t" using f [of n_cells_y] by (simp add: frame_def)
  show "n_cells_x s = n_cells_x t" using f [of n_cells_x] by (simp add: frame_def)
  show "mag s = mag t" using f [of mag] by (simp add: frame_def)
  show "ori s = ori t" using f [of ori] by (simp add: frame_def)
qed

lemma process_one_cell_frame: "frame (snd (process_one_cell i j h)) = frame h"
  by (simp add: process_one_cell_def frame_def Let_def split: sum.splits)

lemma process_one_cell_success:
  assumes "process_one_cell i j h = (None, h')"
  shows "\<exists>hist. length hist = unat (binning h) \<and> i < length (cell_hists h)
           \<and> j < length (cell_hists h ! i)
           \<and> cell_hists h' = (cell_hists h)[i := (cell_hists h ! i)[j := hist]]"
  using assms
  by (auto simp: process_one_cell_def Let_def split: sum.splits if_splits
        dest: process_cell_length)

lemma length_resize: "length (resize n d xs) = n"
  by (simp add: resize_def)

lemma process_row_frame: "frame (snd (process_row i h)) = frame h"
proof (cases "i < length (cell_hists h)")
  case True
  let ?h1 = "h\<lparr>cell_hists := (cell_hists h)[i := resize (unat (n_cells_x h)) [] (cell_hists h ! i)]\<rparr>"
  have "frame (snd (for_loop [0..<unat (n_cells_x h)] (process_one_cell i) ?h1)) = frame h"
  proof (rule for_loop_invariant [where P = "\<lambda>s. frame s = frame h"])
    show "frame ?h1 = frame h" by (simp add: frame_def)
  next
    fix j s e s'
    assume "frame s = frame h" and "process_one_cell i j s = (e, s')"
    then show "frame s' = frame h" using process_one_cell_frame [of i j s] by simp
  qed
  then show ?thesis using True by (simp add: process_row_def)
next
  case False
  then show ?thesis by (simp add: process_row_def)
qed

lemma process_row_success:
  assumes ok: "process_row i h = (None, h')"
    and len: "length (cell_hists h) = ny"
    and rows: "\<forall>i'<i. length (cell_hists h ! i') = nx \<and> (\<forall>j<nx. length (cell_hists h ! i' ! j) = b)"
    and nx: "unat (n_cells_x h) = nx" and b: "unat (binning h) = b"
  shows "length (cell_hists h') = ny
       \<and> (\<forall>i'<Suc i. length (cell_hists h' ! i') = nx
              \<and> (\<forall>j<nx. length (cell_hists h' ! i' ! j) = b))"
proof -
  have i: "i < length (cell_hists h)" using ok by (auto simp: process_row_def split: if_splits)
  let ?h1 = "h\<lparr>cell_hists := (cell_hists h)[i := resize nx [] (cell_hists h ! i)]\<rparr>"
  let ?J = "\<lambda>j t. frame t = frame h \<and> length (cell_hists t) = ny
      \<and> (\<forall>i'<i. length (cell_hists t ! i') = nx \<and> (\<forall>j<nx. length (cell_hists t ! i' ! j) = b))
      \<and> length (cell_hists t ! i) = nx \<and> (\<forall>j'<j. length (cell_hists t ! i ! j') = b)"
  have run: "for_loop [0..<nx] (process_one_cell i) ?h1 = (None, h')"
    using ok i nx by (simp add: process_row_def)
  have "?J nx (snd (for_loop [0..<nx] (process_one_cell i) ?h1))"
  proof (rule for_loop_success [where I = ?J])
    show "fst (for_loop [0..<nx] (process_one_cell i) ?h1) = None" using run by simp
    show "?J 0 ?h1" using len rows i by (simp add: frame_def length_resize)
  next
    fix j t t'
    assume j: "j < nx" and J: "?J j t" and step: "process_one_cell i j t = (None, t')"
    obtain hist where hist: "length hist = unat (binning t)"
      and upd: "cell_hists t' = (cell_hists t)[i := (cell_hists t ! i)[j := hist]]"
      using process_one_cell_success [OF step] by blast
    have fr: "frame t' = frame h" using process_one_cell_frame [of i j t] step J by simp
    have bt: "unat (binning t) = b" using frame_fields(5) [of t h] J b by simp
    have it: "i < length (cell_hists t)" using J i len by simp
    have "\<forall>j'<Suc j. length (cell_hists t' ! i ! j') = b"
    proof (intro allI impI)
      fix j' assume "j' < Suc j"
      then show "length (cell_hists t' ! i ! j') = b"
        using J j hist bt it by (cases "j' = j") (simp_all add: upd)
    qed
    moreover have "\<forall>i'<i. length (cell_hists t' ! i') = nx \<and> (\<forall>j<nx. length (cell_hists t' ! i' ! j) = b)"
      using J by (simp add: upd)
    ultimately show "?J (Suc j) t'" using J fr it by (simp add: upd)
  qed
  then have J: "?J nx h'" using run by simp
  show ?thesis
  proof (intro conjI allI impI)
    show "length (cell_hists h') = ny" using J by simp
  next
    fix i' assume "i' < Suc i"
    then show "length (cell_hists h' ! i') = nx" using J by (cases "i' = i") simp_all
  next
    fix i' j assume "i' < Suc i" "j < nx"
    then show "length (cell_hists h' ! i' ! j) = b" using J by (cases "i' = i") simp_all
  qed
qed

lemma process_success:
  assumes ok: "fst (process img h) = None"
  shows "img_data img \<and> \<not> scast (img_rows img) < blocksize h
         \<and> \<not> scast (img_cols img) < blocksize h \<and> cellsize h \<noteq> 0"
    and "frame (snd (process img h)) = frame (image_maps img h)"
    and "grid_shape (unat (to_cell_units (img_rows img) (cellsize h)))
           (unat (to_cell_units (img_cols img) (cellsize h))) (unat (binning h))
           (cell_hists (snd (process img h)))"
proof -
  show v: "img_data img \<and> \<not> scast (img_rows img) < blocksize h
         \<and> \<not> scast (img_cols img) < blocksize h \<and> cellsize h \<noteq> 0"
    using ok
    by (auto simp: process_def Let_def clear_internals_def magnitude_and_orientation_def
        split: if_splits)
  let ?ny = "unat (to_cell_units (img_rows img) (cellsize h))"
  let ?nx = "unat (to_cell_units (img_cols img) (cellsize h))"
  let ?b = "unat (binning h)"
  let ?h3 = "(image_maps img h)\<lparr>cell_hists := replicate ?ny []\<rparr>"
  have p: "process img h = for_loop [0..<?ny] process_row ?h3"
    using v
    by (simp add: process_def Let_def clear_internals_def magnitude_and_orientation_def
        image_maps_def resize_def)
  let ?I = "\<lambda>k s. frame s = frame ?h3 \<and> length (cell_hists s) = ?ny
      \<and> (\<forall>i<k. length (cell_hists s ! i) = ?nx \<and> (\<forall>j<?nx. length (cell_hists s ! i ! j) = ?b))"
  have "?I ?ny (snd (for_loop [0..<?ny] process_row ?h3))"
  proof (rule for_loop_success [where I = ?I])
    show "fst (for_loop [0..<?ny] process_row ?h3) = None" using ok p by simp
    show "?I 0 ?h3" by simp
  next
    fix i s s'
    assume i: "i < ?ny" and I: "?I i s" and step: "process_row i s = (None, s')"
    have nx: "unat (n_cells_x s) = ?nx"
      using frame_fields(14) [of s ?h3] I by (simp add: image_maps_def magnitude_and_orientation_def)
    have b: "unat (binning s) = ?b"
      using frame_fields(5) [of s ?h3] I by (simp add: image_maps_def magnitude_and_orientation_def)
    have "frame s' = frame ?h3" using process_row_frame [of i s] step I by simp
    then show "?I (Suc i) s'"
      using process_row_success [OF step _ _ nx b, of ?ny] I by simp
  qed
  then have I: "?I ?ny (snd (process img h))" using p by simp
  show "frame (snd (process img h)) = frame (image_maps img h)"
    using I by (simp add: frame_def)
  show "grid_shape ?ny ?nx ?b (cell_hists (snd (process img h)))"
    using I by (simp add: grid_shape_def)
qed

section \<open>Words and cell units\<close>

lemma uint_scast_nonneg:
  fixes v :: "32 word"
  assumes "0 \<le> sint v"
  shows "uint (scast v :: 64 word) = sint v"
proof -
  have "sint v < 2 ^ 31" using sint_lt [of v] by simp
  moreover have "(2::int) ^ 31 \<le> 2 ^ 64" by simp
  ultimately have b: "sint v < 2 ^ 64" by linarith
  have "uint (scast v :: 64 word) = uint (word_of_int (sint v) :: 64 word)"
    by (simp only: scast_eq)
  also have "\<dots> = sint v mod 2 ^ 64"
    by (simp only: uint_word_of_int) simp
  also have "\<dots> = sint v" using assms b by simp
  finally show ?thesis .
qed

lemma unat_scast_nonneg:
  fixes v :: "32 word"
  assumes "0 \<le> sint v"
  shows "unat (scast v :: 64 word) = nat (sint v)"
  using uint_scast_nonneg [OF assms] by (simp only: unat_eq_nat_uint)

lemma scast_ucast_small:
  fixes w :: "64 word"
  assumes "unat w < 2 ^ 31"
  shows "scast (ucast w :: 32 word) = w"
proof -
  have "int (unat w) < int (2 ^ 31)" using assms by (simp only: of_nat_less_iff)
  then have u: "uint w < 2 ^ 31" by (simp only: uint_nat of_nat_power of_nat_numeral)
  have "sint (ucast w :: 32 word) = sint (word_of_int (uint w) :: 32 word)"
    by (simp only: ucast_eq)
  also have "\<dots> = signed_take_bit 31 (uint w)"
    by (simp only: sint_sbintrunc') simp
  also have "\<dots> = uint w"
  proof (rule signed_take_bit_int_eq_self)
    have "0 \<le> uint w" by (rule uint_ge_0)
    moreover have "- (2 ^ 31) \<le> (0::int)" by simp
    ultimately show "- (2 ^ 31) \<le> uint w" by (rule order_trans [rotated])
    show "uint w < 2 ^ 31" by (rule u)
  qed
  finally have s: "sint (ucast w :: 32 word) = uint w" .
  have "scast (ucast w :: 32 word) = (word_of_int (sint (ucast w :: 32 word)) :: 64 word)"
    by (simp only: scast_eq)
  also have "\<dots> = word_of_int (uint w)" by (simp only: s)
  also have "\<dots> = w" by simp
  finally show ?thesis .
qed

lemma sint_minus_nonneg:
  fixes a b :: "32 word"
  assumes "0 \<le> sint a" and "0 \<le> sint b"
  shows "sint (a - b) = sint a - sint b"
proof -
  have a: "sint a < 2 ^ 31" using sint_lt [of a] by simp
  have b: "sint b < 2 ^ 31" using sint_lt [of b] by simp
  have "sint (a - b) = signed_take_bit 31 (sint a - sint b)"
    by (simp add: sint_word_ariths)
  also have "\<dots> = sint a - sint b"
  proof (rule signed_take_bit_int_eq_self)
    show "- (2 ^ 31) \<le> sint a - sint b" using assms b by simp
    show "sint a - sint b < 2 ^ 31" using assms a by simp
  qed
  finally show ?thesis .
qed

section \<open>The block pass computes the descriptor\<close>

lemma cell_x_loop_eq:
  assumes "unat cy < length (cell_hists h)"
    and "unat xe \<le> length (cell_hists h ! unat cy)"
  shows "cell_x_loop h cy xe cx bh =
           Inr (bh @ concat (map (\<lambda>k. cell_hists h ! unat cy ! k) [unat cx..<unat xe]))"
  using assms
proof (induction h cy xe cx bh rule: cell_x_loop.induct)
  case (1 h cy xe cx bh)
  show ?case
  proof (cases "cx < xe")
    case True
    then have lt: "unat cx < unat xe" by (simp add: word_less_nat_alt)
    have inc: "unat (cx + 1) = Suc (unat cx)" by (rule unat_inc [OF True])
    have u: "[unat cx..<unat xe] = unat cx # [Suc (unat cx)..<unat xe]"
      using lt by (simp add: upt_rec)
    have inb: "unat cx < length (cell_hists h ! unat cy)" using lt "1.prems" by linarith
    have "cell_x_loop h cy xe cx bh =
            cell_x_loop h cy xe (cx + 1) (bh @ cell_hists h ! unat cy ! unat cx)"
      using True inb "1.prems"(1) by (subst cell_x_loop.simps) simp
    also have "\<dots> = Inr ((bh @ cell_hists h ! unat cy ! unat cx)
                 @ concat (map (\<lambda>k. cell_hists h ! unat cy ! k) [unat (cx + 1)..<unat xe]))"
      using True inb "1.prems" by (intro "1.IH") simp_all
    finally show ?thesis by (simp add: u inc)
  next
    case False
    then have "unat xe \<le> unat cx" by (simp add: word_less_nat_alt)
    then show ?thesis using False by (subst cell_x_loop.simps) simp
  qed
qed

lemma cell_y_loop_eq:
  assumes "unat ye \<le> length (cell_hists h)"
    and "\<forall>r<unat ye. unat (bx + n_cells_per_block_x h) \<le> length (cell_hists h ! r)"
  shows "cell_y_loop h bx ye cy bh =
           Inr (bh @ concat (map (\<lambda>r. concat (map (\<lambda>k. cell_hists h ! r ! k)
                                   [unat bx..<unat (bx + n_cells_per_block_x h)]))
                              [unat cy..<unat ye]))"
  using assms
proof (induction h bx ye cy bh rule: cell_y_loop.induct)
  case (1 h bx ye cy bh)
  show ?case
  proof (cases "cy < ye")
    case True
    then have lt: "unat cy < unat ye" by (simp add: word_less_nat_alt)
    have inc: "unat (cy + 1) = Suc (unat cy)" by (rule unat_inc [OF True])
    have u: "[unat cy..<unat ye] = unat cy # [Suc (unat cy)..<unat ye]"
      using lt by (simp add: upt_rec)
    have row: "cell_x_loop h cy (bx + n_cells_per_block_x h) bx bh =
        Inr (bh @ concat (map (\<lambda>k. cell_hists h ! unat cy ! k)
                            [unat bx..<unat (bx + n_cells_per_block_x h)]))"
      using lt "1.prems" by (intro cell_x_loop_eq) simp_all
    have "cell_y_loop h bx ye cy bh =
            cell_y_loop h bx ye (cy + 1)
              (bh @ concat (map (\<lambda>k. cell_hists h ! unat cy ! k)
                            [unat bx..<unat (bx + n_cells_per_block_x h)]))"
      using True row by (subst cell_y_loop.simps) simp
    also have "\<dots> = Inr ((bh @ concat (map (\<lambda>k. cell_hists h ! unat cy ! k)
                            [unat bx..<unat (bx + n_cells_per_block_x h)]))
          @ concat (map (\<lambda>r. concat (map (\<lambda>k. cell_hists h ! r ! k)
                                   [unat bx..<unat (bx + n_cells_per_block_x h)]))
                              [unat (cy + 1)..<unat ye]))"
      using True row "1.prems" by (intro "1.IH") simp_all
    finally show ?thesis by (simp add: u inc)
  next
    case False
    then have "unat ye \<le> unat cy" by (simp add: word_less_nat_alt)
    then show ?thesis using False by (subst cell_y_loop.simps) simp
  qed
qed

lemma unat_of_nat_small: "n < 2 ^ 64 \<Longrightarrow> unat (word_of_nat n :: size_t) = n"
  by (simp add: unat_of_nat)

lemma block_x_loop_steps:
  assumes su: "0 < su" "unat (stride_unit h) = su"
    and last: "unat x_last = lst"
    and nowrap: "x0 + n * su < 2 ^ 64"
    and inside: "\<forall>j<n. x0 + j * su \<le> lst"
    and exit: "lst < x0 + n * su"
    and blocks: "\<forall>j<n. cell_y_loop h (word_of_nat (x0 + j * su))
                   (block_y + n_cells_per_block_y h) block_y [] = Inr (B (x0 + j * su))"
    and k: "k \<le> n"
  shows "block_x_loop h block_y x_last (word_of_nat (x0 + k * su)) acc =
           Some (Inr (acc @ concat (map (\<lambda>j. block_norm h (B (x0 + j * su))) [k..<n])))"
  using k
proof (induction "n - k" arbitrary: k acc)
  case 0
  then have kn: "k = n" by simp
  have "unat (word_of_nat (x0 + n * su) :: size_t) = x0 + n * su"
    by (rule unat_of_nat_small [OF nowrap])
  then have "\<not> (word_of_nat (x0 + n * su) :: size_t) \<le> x_last"
    using exit last by (simp add: word_le_nat_alt)
  then show ?case using kn by (subst block_x_loop.simps) simp
next
  case (Suc d)
  then have kn: "k < n" by linarith
  have "x0 + k * su \<le> x0 + n * su" using kn by simp
  then have small: "x0 + k * su < 2 ^ 64" using nowrap by linarith
  have pos: "unat (word_of_nat (x0 + k * su) :: size_t) = x0 + k * su"
    by (rule unat_of_nat_small [OF small])
  have cond: "(word_of_nat (x0 + k * su) :: size_t) \<le> x_last"
    using inside kn last pos by (simp add: word_le_nat_alt)
  have blk: "cell_y_loop h (word_of_nat (x0 + k * su)) (block_y + n_cells_per_block_y h)
               block_y [] = Inr (B (x0 + k * su))"
    using blocks kn by simp
  have "stride_unit h = word_of_nat su" using su(2) [symmetric] by simp
  then have step: "(word_of_nat (x0 + k * su) :: size_t) + stride_unit h
                     = word_of_nat (x0 + Suc k * su)"
    by (simp add: add.commute add.left_commute)
  have u: "[k..<n] = k # [Suc k..<n]" using kn by (simp add: upt_rec)
  have "block_x_loop h block_y x_last (word_of_nat (x0 + k * su)) acc =
          block_x_loop h block_y x_last (word_of_nat (x0 + Suc k * su))
            (acc @ block_norm h (B (x0 + k * su)))"
    by (subst block_x_loop.simps)
      (simp only: cond blk step if_True sum.case)
  also have "\<dots> = Some (Inr ((acc @ block_norm h (B (x0 + k * su)))
        @ concat (map (\<lambda>j. block_norm h (B (x0 + j * su))) [Suc k..<n])))"
    using Suc.hyps(2) kn by (intro Suc.hyps(1)) simp_all
  finally show ?case by (simp add: u)
qed

lemma block_y_loop_steps:
  assumes su: "0 < su" "unat (stride_unit h) = su"
    and last: "unat y_last = lst"
    and nowrap: "y0 + n * su < 2 ^ 64"
    and inside: "\<forall>i<n. y0 + i * su \<le> lst"
    and exit: "lst < y0 + n * su"
    and rows: "\<forall>i<n. \<forall>acc. block_x_loop h (word_of_nat (y0 + i * su)) x_last x acc
                  = Some (Inr (acc @ R (y0 + i * su)))"
    and k: "k \<le> n"
  shows "block_y_loop h x x_last y_last (word_of_nat (y0 + k * su)) acc =
           Some (Inr (acc @ concat (map (\<lambda>i. R (y0 + i * su)) [k..<n])))"
  using k
proof (induction "n - k" arbitrary: k acc)
  case 0
  then have kn: "k = n" by simp
  have "unat (word_of_nat (y0 + n * su) :: size_t) = y0 + n * su"
    by (rule unat_of_nat_small [OF nowrap])
  then have "\<not> (word_of_nat (y0 + n * su) :: size_t) \<le> y_last"
    using exit last by (simp add: word_le_nat_alt)
  then show ?case using kn by (subst block_y_loop.simps) simp
next
  case (Suc d)
  then have kn: "k < n" by linarith
  have "y0 + k * su \<le> y0 + n * su" using kn by simp
  then have small: "y0 + k * su < 2 ^ 64" using nowrap by linarith
  have pos: "unat (word_of_nat (y0 + k * su) :: size_t) = y0 + k * su"
    by (rule unat_of_nat_small [OF small])
  have cond: "(word_of_nat (y0 + k * su) :: size_t) \<le> y_last"
    using inside kn last pos by (simp add: word_le_nat_alt)
  have row: "block_x_loop h (word_of_nat (y0 + k * su)) x_last x acc
               = Some (Inr (acc @ R (y0 + k * su)))"
    using rows kn by simp
  have "stride_unit h = word_of_nat su" using su(2) [symmetric] by simp
  then have step: "(word_of_nat (y0 + k * su) :: size_t) + stride_unit h
                     = word_of_nat (y0 + Suc k * su)"
    by (simp add: add.commute add.left_commute)
  have u: "[k..<n] = k # [Suc k..<n]" using kn by (simp add: upt_rec)
  have "block_y_loop h x x_last y_last (word_of_nat (y0 + k * su)) acc =
          block_y_loop h x x_last y_last (word_of_nat (y0 + Suc k * su))
            (acc @ R (y0 + k * su))"
    by (subst block_y_loop.simps)
      (simp only: cond row step if_True option.case sum.case)
  also have "\<dots> = Some (Inr ((acc @ R (y0 + k * su))
        @ concat (map (\<lambda>i. R (y0 + i * su)) [Suc k..<n])))"
    using Suc.hyps(2) kn by (intro Suc.hyps(1)) simp_all
  finally show ?case by (simp add: u)
qed

lemma to_cell_units_nonneg:
  assumes "0 \<le> sint v"
  shows "unat (to_cell_units v c) = nat (sint v) div unat c"
proof -
  have a: "unat (scast v :: size_t) = nat (sint v)" by (rule unat_scast_nonneg [OF assms])
  have "sint v < 2 ^ 31" using sint_lt [of v] by simp
  then have b: "nat (sint v) < 2 ^ 31" using assms by (simp add: nat_less_iff)
  have q: "unat ((scast v :: size_t) div c) = nat (sint v) div unat c"
    by (simp add: unat_div a)
  have "nat (sint v) div unat c \<le> nat (sint v)" by (rule div_le_dividend)
  then have "unat ((scast v :: size_t) div c) < 2 ^ 31" using b q by linarith
  then have "scast (ucast ((scast v :: size_t) div c) :: cint) = (scast v :: size_t) div c"
    by (rule scast_ucast_small)
  then show ?thesis by (simp add: to_cell_units_def q)
qed

lemma unat_word_of_nat_plus:
  assumes "p + unat (w :: size_t) < 2 ^ 64"
  shows "unat (word_of_nat p + w) = p + unat w"
proof -
  have "p < 2 ^ 64" using assms by linarith
  then have "unat (word_of_nat p :: size_t) = p" by (rule unat_of_nat_small)
  then show ?thesis using assms by (simp add: unat_add_lem [THEN iffD1])
qed

lemma block_eval:
  assumes shape: "grid_shape ny nx b (cell_hists h)"
    and cy: "unat (n_cells_per_block_y h) = c" and cx: "unat (n_cells_per_block_x h) = c"
    and py: "py + c \<le> ny" and px: "px + c \<le> nx"
    and ny: "ny < 2 ^ 64" and nx: "nx < 2 ^ 64"
  shows "cell_y_loop h (word_of_nat px) (word_of_nat py + n_cells_per_block_y h)
           (word_of_nat py) [] = Inr (block_cells (cell_hists h) c py px)"
proof -
  have ye: "unat (word_of_nat py + n_cells_per_block_y h) = py + c"
    using unat_word_of_nat_plus [of py "n_cells_per_block_y h"] cy py ny by simp
  have xe: "unat (word_of_nat px + n_cells_per_block_x h) = px + c"
    using unat_word_of_nat_plus [of px "n_cells_per_block_x h"] cx px nx by simp
  have p1: "unat (word_of_nat py :: size_t) = py"
    using py ny by (intro unat_of_nat_small) linarith
  have p2: "unat (word_of_nat px :: size_t) = px"
    using px nx by (intro unat_of_nat_small) linarith
  have len: "length (cell_hists h) = ny" using shape by (simp add: grid_shape_def)
  have rows: "\<forall>r<ny. length (cell_hists h ! r) = nx" using shape by (simp add: grid_shape_def)
  have "cell_y_loop h (word_of_nat px) (word_of_nat py + n_cells_per_block_y h)
           (word_of_nat py) [] =
        Inr ([] @ concat (map (\<lambda>r. concat (map (\<lambda>k. cell_hists h ! r ! k)
               [unat (word_of_nat px :: size_t)..<unat (word_of_nat px + n_cells_per_block_x h)]))
               [unat (word_of_nat py :: size_t)..<unat (word_of_nat py + n_cells_per_block_y h)]))"
  proof (rule cell_y_loop_eq)
    show "unat (word_of_nat py + n_cells_per_block_y h) \<le> length (cell_hists h)"
      using ye py len by simp
    show "\<forall>r<unat (word_of_nat py + n_cells_per_block_y h).
            unat (word_of_nat px + n_cells_per_block_x h) \<le> length (cell_hists h ! r)"
      using ye xe py px rows by simp
  qed
  then show ?thesis by (simp add: block_cells_def ye xe p1 p2)
qed

lemma HOG_valid_config: "HOG b c s n g f = Inr h \<Longrightarrow> valid_config h"
  by (auto simp: HOG_def valid_config_def Let_def split: if_splits sum.splits)

lemma unat_last_position:
  fixes a b c :: size_t
  assumes "unat c \<le> unat b" and "unat a + unat b < 2 ^ 64"
  shows "unat (a + b - c) = unat a + unat b - unat c"
proof -
  have ab: "unat (a + b) = unat a + unat b"
    using assms(2) by (simp add: unat_add_lem [THEN iffD1])
  have "c \<le> a + b" using assms(1) ab by (simp add: word_le_nat_alt)
  then show ?thesis by (simp add: unat_sub ab)
qed

lemma steps_inside:
  assumes "0 < (s::nat)" and "j < n_blocks e c s"
  shows "x + j * s \<le> x + (e - c)"
proof -
  have "j \<le> (e - c) div s" using assms(2) by (simp add: n_blocks_def)
  then have "j * s \<le> ((e - c) div s) * s" by (rule mult_le_mono1)
  also have "\<dots> \<le> e - c" by simp
  finally show ?thesis by simp
qed

lemma steps_exit:
  assumes "0 < (s::nat)"
  shows "x + (e - c) < x + n_blocks e c s * s"
proof -
  have "e - c < (e - c) div s * s + s"
    using assms mod_less_divisor [of s "e - c"] div_mult_mod_eq [of "e - c" s] by linarith
  then show ?thesis by (simp add: n_blocks_def)
qed

lemma steps_bound:
  assumes "0 < (s::nat)"
  shows "x + n_blocks e c s * s \<le> x + (e - c) + s"
proof -
  have "(e - c) div s * s \<le> e - c" by simp
  then show ?thesis by (simp add: n_blocks_def)
qed

lemma div_add_div_le: "(a::nat) div c + b div c \<le> (a + b) div c"
proof (cases "c = 0")
  case True
  then show ?thesis by simp
next
  case False
  have "a div c * c + b div c * c \<le> a + b"
    by (intro add_mono div_times_less_eq_dividend)
  then have "(a div c + b div c) * c \<le> a + b"
    by (simp add: add_mult_distrib)
  then show ?thesis using False by (simp add: less_eq_div_iff_mult_less_eq)
qed

lemma nat_sint_bound: "nat (sint (v :: cint)) < 2 ^ 31"
proof -
  have "sint v < 2 ^ 31" using sint_lt [of v] by simp
  then show ?thesis by (cases "0 \<le> sint v") (simp_all add: nat_less_iff)
qed

lemma unat_scast_ge:
  fixes v :: cint and b :: size_t
  assumes "uint b \<le> sint v"
  shows "\<not> scast v < b"
proof -
  have nn: "0 \<le> sint v" using assms uint_ge_0 [of b] by linarith
  have "unat (scast v :: size_t) = nat (sint v)" by (rule unat_scast_nonneg [OF nn])
  moreover have "unat b \<le> nat (sint v)"
    using nat_mono [OF assms] by (simp only: unat_eq_nat_uint)
  ultimately show ?thesis by (simp add: word_less_nat_alt)
qed

lemma retrieve_loops:
  assumes shape: "grid_shape ny nx b (cell_hists h)"
    and cy: "unat (n_cells_per_block_y h) = c" and cx: "unat (n_cells_per_block_x h) = c"
    and su: "0 < s" "unat (stride_unit h) = s" "s + 2 ^ 31 \<le> 2 ^ 64"
    and x: "unat x = x'" and y: "unat y = y'" and w: "unat width = w'" and ht: "unat height = h'"
    and cw: "c \<le> w'" and ch: "c \<le> h'"
    and inx: "x' + w' \<le> nx" and iny: "y' + h' \<le> ny"
    and nx: "nx < 2 ^ 31" and ny: "ny < 2 ^ 31"
  shows "block_y_loop h x (x + width - n_cells_per_block_x h)
           (y + height - n_cells_per_block_y h) y [] =
         Some (Inr (concat (map (\<lambda>block_y.
           concat (map (\<lambda>block_x. block_norm h (block_cells (cell_hists h) c block_y block_x))
                       (block_positions x' w' c s)))
           (block_positions y' h' c s))))"
proof -
  have p31: "(2::nat) ^ 31 < 2 ^ 64" by simp
  have xl: "unat (x + width - n_cells_per_block_x h) = x' + (w' - c)"
    using unat_last_position [of "n_cells_per_block_x h" width x] cx cw x w inx nx p31 by simp
  have yl: "unat (y + height - n_cells_per_block_y h) = y' + (h' - c)"
    using unat_last_position [of "n_cells_per_block_y h" height y] cy ch y ht iny ny p31 by simp
  let ?nbx = "n_blocks w' c s" and ?nby = "n_blocks h' c s"
  have wrapx: "x' + ?nbx * s < 2 ^ 64"
    using steps_bound [OF su(1), of x' w' c] su(3) inx nx cw by linarith
  have wrapy: "y' + ?nby * s < 2 ^ 64"
    using steps_bound [OF su(1), of y' h' c] su(3) iny ny ch by linarith
  let ?R = "\<lambda>py. concat (map (\<lambda>j. block_norm h (block_cells (cell_hists h) c py (x' + j * s)))
                          [0..<?nbx])"
  have row: "block_x_loop h (word_of_nat (y' + i * s)) (x + width - n_cells_per_block_x h) x acc
               = Some (Inr (acc @ ?R (y' + i * s)))" if i: "i < ?nby" for i acc
  proof -
    have pyb: "y' + i * s + c \<le> ny" using steps_inside [OF su(1) i, of y'] ch iny by linarith
    have "block_x_loop h (word_of_nat (y' + i * s)) (x + width - n_cells_per_block_x h)
            (word_of_nat (x' + 0 * s)) acc
          = Some (Inr (acc @ concat (map (\<lambda>j. block_norm h
                 (block_cells (cell_hists h) c (y' + i * s) (x' + j * s))) [0..<?nbx])))"
    proof (rule block_x_loop_steps [OF su(1) su(2) xl wrapx])
      show "\<forall>j<?nbx. x' + j * s \<le> x' + (w' - c)" using steps_inside [OF su(1)] by blast
      show "x' + (w' - c) < x' + ?nbx * s" by (rule steps_exit [OF su(1)])
      show "\<forall>j<?nbx. cell_y_loop h (word_of_nat (x' + j * s))
              (word_of_nat (y' + i * s) + n_cells_per_block_y h) (word_of_nat (y' + i * s)) []
            = Inr (block_cells (cell_hists h) c (y' + i * s) (x' + j * s))"
      proof (intro allI impI)
        fix j assume j: "j < ?nbx"
        have pxb: "x' + j * s + c \<le> nx"
          using steps_inside [OF su(1) j, of x'] cw inx by linarith
        show "cell_y_loop h (word_of_nat (x' + j * s))
              (word_of_nat (y' + i * s) + n_cells_per_block_y h) (word_of_nat (y' + i * s)) []
            = Inr (block_cells (cell_hists h) c (y' + i * s) (x' + j * s))"
          using nx ny p31 by (intro block_eval [OF shape cy cx pyb pxb]) linarith+
      qed
      show "0 \<le> ?nbx" by simp
    qed
    moreover have "(word_of_nat (x' + 0 * s) :: size_t) = x" using x [symmetric] by simp
    ultimately show ?thesis by simp
  qed
  have "block_y_loop h x (x + width - n_cells_per_block_x h)
          (y + height - n_cells_per_block_y h) (word_of_nat (y' + 0 * s)) []
        = Some (Inr ([] @ concat (map (\<lambda>i. ?R (y' + i * s)) [0..<?nby])))"
  proof (rule block_y_loop_steps [OF su(1) su(2) yl wrapy])
    show "\<forall>i<?nby. y' + i * s \<le> y' + (h' - c)" using steps_inside [OF su(1)] by blast
    show "y' + (h' - c) < y' + ?nby * s" by (rule steps_exit [OF su(1)])
    show "\<forall>i<?nby. \<forall>acc. block_x_loop h (word_of_nat (y' + i * s))
            (x + width - n_cells_per_block_x h) x acc = Some (Inr (acc @ ?R (y' + i * s)))"
      using row by blast
    show "0 \<le> ?nby" by simp
  qed
  moreover have "(word_of_nat (y' + 0 * s) :: size_t) = y" using y [symmetric] by simp
  ultimately show ?thesis by (simp add: block_positions_def comp_def)
qed

lemma process_fields:
  assumes ok: "fst (process img h) = None"
  shows "blocksize (snd (process img h)) = blocksize h"
    and "cellsize (snd (process img h)) = cellsize h"
    and "stride (snd (process img h)) = stride h"
    and "binning (snd (process img h)) = binning h"
    and "n_cells_per_block_y (snd (process img h)) = n_cells_per_block_y h"
    and "n_cells_per_block_x (snd (process img h)) = n_cells_per_block_x h"
    and "stride_unit (snd (process img h)) = stride_unit h"
    and "block_norm (snd (process img h)) = block_norm h"
    and "mat_rows (mag (snd (process img h))) = img_rows img"
    and "mat_cols (mag (snd (process img h))) = img_cols img"
  using frame_fields [OF process_success(2) [OF ok]]
  by (simp_all add: image_maps_def magnitude_and_orientation_def)

lemma window_facts:
  assumes cfg: "valid_config h"
    and ok: "fst (process img h) = None"
    and win: "valid_window window (snd (process img h))"
  shows "grid_shape (cells h (img_rows img)) (cells h (img_cols img)) (unat (binning h))
           (cell_hists (snd (process img h)))"
    and "unat (n_cells_per_block_y (snd (process img h)))
           = unat (blocksize h) div unat (cellsize h)"
    and "unat (n_cells_per_block_x (snd (process img h)))
           = unat (blocksize h) div unat (cellsize h)"
    and "unat (stride_unit (snd (process img h))) = unat (stride h) div unat (cellsize h)"
    and "unat (to_cell_units (rect_x window) (cellsize h)) = cells h (rect_x window)"
    and "unat (to_cell_units (rect_y window) (cellsize h)) = cells h (rect_y window)"
    and "unat (to_cell_units (rect_width window) (cellsize h)) = cells h (rect_width window)"
    and "unat (to_cell_units (rect_height window) (cellsize h)) = cells h (rect_height window)"
    and "unat (blocksize h) div unat (cellsize h) \<le> cells h (rect_width window)"
    and "unat (blocksize h) div unat (cellsize h) \<le> cells h (rect_height window)"
    and "cells h (rect_x window) + cells h (rect_width window) \<le> cells h (img_cols img)"
    and "cells h (rect_y window) + cells h (rect_height window) \<le> cells h (img_rows img)"
    and "cells h (img_cols img) < 2 ^ 31"
    and "cells h (img_rows img) < 2 ^ 31"
proof -
  let ?st = "snd (process img h)"
  note pf = process_fields [OF ok]
  note ps = process_success [OF ok]
  let ?cs = "unat (cellsize h)"
  show "unat (n_cells_per_block_y ?st) = unat (blocksize h) div ?cs"
    using cfg by (simp add: pf valid_config_def unat_div)
  show "unat (n_cells_per_block_x ?st) = unat (blocksize h) div ?cs"
    using cfg by (simp add: pf valid_config_def unat_div)
  show "unat (stride_unit ?st) = unat (stride h) div ?cs"
    using cfg by (simp add: pf valid_config_def unat_div)
  have wx: "0 \<le> sint (rect_x window)" and wy: "0 \<le> sint (rect_y window)"
    and ww: "uint (blocksize h) \<le> sint (rect_width window)"
    and wh: "uint (blocksize h) \<le> sint (rect_height window)"
    and wc: "sint (rect_x window) + sint (rect_width window) \<le> sint (img_cols img)"
    and wr: "sint (rect_y window) + sint (rect_height window) \<le> sint (img_rows img)"
    using win by (simp_all add: valid_window_def pf)
  have ww0: "0 \<le> sint (rect_width window)" using ww uint_ge_0 [of "blocksize h"] by linarith
  have wh0: "0 \<le> sint (rect_height window)" using wh uint_ge_0 [of "blocksize h"] by linarith
  have c0: "0 \<le> sint (img_cols img)" using wx ww0 wc by linarith
  have r0: "0 \<le> sint (img_rows img)" using wy wh0 wr by linarith
  show "grid_shape (cells h (img_rows img)) (cells h (img_cols img)) (unat (binning h))
          (cell_hists ?st)"
    using ps(3) by (simp add: cells_def to_cell_units_nonneg c0 r0)
  show "unat (to_cell_units (rect_x window) (cellsize h)) = cells h (rect_x window)"
    unfolding cells_def by (rule to_cell_units_nonneg [OF wx])
  show "unat (to_cell_units (rect_y window) (cellsize h)) = cells h (rect_y window)"
    unfolding cells_def by (rule to_cell_units_nonneg [OF wy])
  show "unat (to_cell_units (rect_width window) (cellsize h)) = cells h (rect_width window)"
    unfolding cells_def by (rule to_cell_units_nonneg [OF ww0])
  show "unat (to_cell_units (rect_height window) (cellsize h)) = cells h (rect_height window)"
    unfolding cells_def by (rule to_cell_units_nonneg [OF wh0])
  have "unat (blocksize h) \<le> nat (sint (rect_width window))"
    using nat_mono [OF ww] by (simp only: unat_eq_nat_uint)
  then show "unat (blocksize h) div ?cs \<le> cells h (rect_width window)"
    unfolding cells_def by (rule div_le_mono)
  have "unat (blocksize h) \<le> nat (sint (rect_height window))"
    using nat_mono [OF wh] by (simp only: unat_eq_nat_uint)
  then show "unat (blocksize h) div ?cs \<le> cells h (rect_height window)"
    unfolding cells_def by (rule div_le_mono)
  have "nat (sint (rect_x window)) + nat (sint (rect_width window)) \<le> nat (sint (img_cols img))"
    using wx ww0 wc by linarith
  then have "(nat (sint (rect_x window)) + nat (sint (rect_width window))) div ?cs
               \<le> cells h (img_cols img)"
    unfolding cells_def by (rule div_le_mono)
  then show "cells h (rect_x window) + cells h (rect_width window) \<le> cells h (img_cols img)"
    using div_add_div_le [of "nat (sint (rect_x window))" ?cs "nat (sint (rect_width window))"]
    unfolding cells_def by linarith
  have "nat (sint (rect_y window)) + nat (sint (rect_height window)) \<le> nat (sint (img_rows img))"
    using wy wh0 wr by linarith
  then have "(nat (sint (rect_y window)) + nat (sint (rect_height window))) div ?cs
               \<le> cells h (img_rows img)"
    unfolding cells_def by (rule div_le_mono)
  then show "cells h (rect_y window) + cells h (rect_height window) \<le> cells h (img_rows img)"
    using div_add_div_le [of "nat (sint (rect_y window))" ?cs "nat (sint (rect_height window))"]
    unfolding cells_def by linarith
  have "cells h (img_cols img) \<le> nat (sint (img_cols img))"
    unfolding cells_def by (rule div_le_dividend)
  then show "cells h (img_cols img) < 2 ^ 31"
    using nat_sint_bound [of "img_cols img"] by linarith
  have "cells h (img_rows img) \<le> nat (sint (img_rows img))"
    unfolding cells_def by (rule div_le_dividend)
  then show "cells h (img_rows img) < 2 ^ 31"
    using nat_sint_bound [of "img_rows img"] by linarith
qed

lemma window_checks:
  assumes ok: "fst (process img h) = None"
    and win: "valid_window window (snd (process img h))"
  shows "\<not> scast (rect_height window) < blocksize (snd (process img h))"
    and "\<not> scast (rect_width window) < blocksize (snd (process img h))"
    and "\<not> mat_cols (mag (snd (process img h))) - rect_width window <s rect_x window"
    and "\<not> mat_rows (mag (snd (process img h))) - rect_height window <s rect_y window"
proof -
  let ?st = "snd (process img h)"
  note pf = process_fields [OF ok]
  have wx: "0 \<le> sint (rect_x window)" and wy: "0 \<le> sint (rect_y window)"
    and ww: "uint (blocksize h) \<le> sint (rect_width window)"
    and wh: "uint (blocksize h) \<le> sint (rect_height window)"
    and wc: "sint (rect_x window) + sint (rect_width window) \<le> sint (img_cols img)"
    and wr: "sint (rect_y window) + sint (rect_height window) \<le> sint (img_rows img)"
    using win by (simp_all add: valid_window_def pf)
  have ww0: "0 \<le> sint (rect_width window)" using ww uint_ge_0 [of "blocksize h"] by linarith
  have wh0: "0 \<le> sint (rect_height window)" using wh uint_ge_0 [of "blocksize h"] by linarith
  have c0: "0 \<le> sint (img_cols img)" using wx ww0 wc by linarith
  have r0: "0 \<le> sint (img_rows img)" using wy wh0 wr by linarith
  show "\<not> scast (rect_height window) < blocksize ?st"
    using unat_scast_ge [OF wh] by (simp add: pf)
  show "\<not> scast (rect_width window) < blocksize ?st"
    using unat_scast_ge [OF ww] by (simp add: pf)
  show "\<not> mat_cols (mag ?st) - rect_width window <s rect_x window"
    using wc by (simp add: pf word_sless_alt sint_minus_nonneg [OF c0 ww0])
  show "\<not> mat_rows (mag ?st) - rect_height window <s rect_y window"
    using wr by (simp add: pf word_sless_alt sint_minus_nonneg [OF r0 wh0])
qed

lemma retrieve_descriptor_aux:
  assumes cfg: "valid_config h"
    and su0: "stride_unit h \<noteq> 0" and su1: "unat (stride_unit h) + 2 ^ 31 \<le> 2 ^ 64"
    and ok: "fst (process img h) = None"
    and win: "valid_window window (snd (process img h))"
  shows "retrieve window (snd (process img h)) =
           Some (Inr (descriptor (snd (process img h)) window), snd (process img h))"
proof -
  let ?st = "snd (process img h)"
  note pf = process_fields [OF ok]
  note ps = process_success [OF ok]
  note wf = window_facts [OF cfg ok win]
  note wc = window_checks [OF ok win]
  have cs0: "cellsize h \<noteq> 0" using ps(1) by simp
  let ?c = "unat (blocksize h) div unat (cellsize h)"
  let ?s = "unat (stride h) div unat (cellsize h)"
  have "0 < unat (stride_unit h)" using su0 by (simp add: unat_gt_0)
  then have s0: "0 < ?s" using wf(4) by (simp add: pf)
  have s1: "?s + 2 ^ 31 \<le> 2 ^ 64" using su1 wf(4) by (simp add: pf)
  have loops: "block_y_loop ?st (to_cell_units (rect_x window) (cellsize h))
      (to_cell_units (rect_x window) (cellsize h) + to_cell_units (rect_width window) (cellsize h)
         - n_cells_per_block_x ?st)
      (to_cell_units (rect_y window) (cellsize h) + to_cell_units (rect_height window) (cellsize h)
         - n_cells_per_block_y ?st)
      (to_cell_units (rect_y window) (cellsize h)) [] =
     Some (Inr (concat (map (\<lambda>block_y.
           concat (map (\<lambda>block_x. block_norm ?st (block_cells (cell_hists ?st) ?c block_y block_x))
                       (block_positions (cells h (rect_x window)) (cells h (rect_width window)) ?c ?s)))
           (block_positions (cells h (rect_y window)) (cells h (rect_height window)) ?c ?s))))"
    by (rule retrieve_loops [OF wf(1) wf(2) wf(3) s0 wf(4) s1 wf(5) wf(6) wf(7) wf(8) wf(9)
          wf(10) wf(11) wf(12) wf(13) wf(14)])
  have "retrieve window ?st = map_option (\<lambda>r. (r, ?st))
     (block_y_loop ?st (to_cell_units (rect_x window) (cellsize h))
      (to_cell_units (rect_x window) (cellsize h) + to_cell_units (rect_width window) (cellsize h)
         - n_cells_per_block_x ?st)
      (to_cell_units (rect_y window) (cellsize h) + to_cell_units (rect_height window) (cellsize h)
         - n_cells_per_block_y ?st)
      (to_cell_units (rect_y window) (cellsize h)) [])"
    using wc cs0 by (simp add: retrieve_def Let_def pf(2))
  then show ?thesis by (simp add: loops descriptor_def Let_def pf(1,2,3) cells_def)
qed

lemma sum_list_const: "\<forall>x\<in>set xs. f x = (k::nat) \<Longrightarrow> sum_list (map f xs) = length xs * k"
  by (induction xs) simp_all

lemma length_concat_const:
  assumes "\<forall>x\<in>set xs. length (f x) = k"
  shows "length (concat (map f xs)) = length xs * k"
  using sum_list_const [of xs "\<lambda>x. length (f x)" k] assms
  by (simp add: length_concat comp_def)

lemma block_cells_length:
  assumes shape: "grid_shape ny nx b g" and py: "py + c \<le> ny" and px: "px + c \<le> nx"
  shows "length (block_cells g c py px) = c * (c * b)"
proof -
  have row: "length (concat (map (\<lambda>cx. g ! cy ! cx) [px..<px + c])) = c * b"
    if "cy \<in> set [py..<py + c]" for cy
  proof -
    have "cy < ny" using that py by simp
    then have "\<forall>cx\<in>set [px..<px + c]. length (g ! cy ! cx) = b"
      using shape px by (simp add: grid_shape_def)
    then show ?thesis using length_concat_const [of "[px..<px + c]" "\<lambda>cx. g ! cy ! cx" b] by simp
  qed
  have "length (concat (map (\<lambda>cy. concat (map (\<lambda>cx. g ! cy ! cx) [px..<px + c]))
          [py..<py + c])) = length [py..<py + c] * (c * b)"
    by (rule length_concat_const) (use row in blast)
  then show ?thesis by (simp add: block_cells_def)
qed

lemma block_positions_inside:
  assumes "0 < s" and "p \<in> set (block_positions x e c s)" and "c \<le> e"
  shows "p + c \<le> x + e"
proof -
  obtain j where j: "j < n_blocks e c s" and p: "p = x + j * s"
    using assms(2) by (auto simp: block_positions_def)
  show ?thesis using steps_inside [OF assms(1) j, of x] assms(3) p by linarith
qed

lemma descriptor_blocks_length:
  assumes norm: "\<forall>v. length (f v) = length v"
    and shape: "grid_shape ny nx b g"
    and s: "0 < s" and cw: "c \<le> w'" and ch: "c \<le> h'"
    and inx: "x' + w' \<le> nx" and iny: "y' + h' \<le> ny"
  shows "length (concat (map (\<lambda>block_y.
           concat (map (\<lambda>block_x. f (block_cells g c block_y block_x))
                       (block_positions x' w' c s)))
           (block_positions y' h' c s)))
         = n_blocks h' c s * (n_blocks w' c s * (c * (c * b)))"
proof -
  have row: "length (concat (map (\<lambda>block_x. f (block_cells g c block_y block_x))
                 (block_positions x' w' c s))) = n_blocks w' c s * (c * (c * b))"
    if mem: "block_y \<in> set (block_positions y' h' c s)" for block_y
  proof -
    have pyb: "block_y + c \<le> ny" using block_positions_inside [OF s mem ch] iny by linarith
    have "\<forall>block_x\<in>set (block_positions x' w' c s).
            length (f (block_cells g c block_y block_x)) = c * (c * b)"
    proof
      fix block_x assume bx: "block_x \<in> set (block_positions x' w' c s)"
      have pxb: "block_x + c \<le> nx" using block_positions_inside [OF s bx cw] inx by linarith
      show "length (f (block_cells g c block_y block_x)) = c * (c * b)"
        using block_cells_length [OF shape pyb pxb] norm by simp
    qed
    then have "length (concat (map (\<lambda>block_x. f (block_cells g c block_y block_x))
                 (block_positions x' w' c s)))
               = length (block_positions x' w' c s) * (c * (c * b))"
      by (rule length_concat_const)
    then show ?thesis by (simp add: block_positions_def)
  qed
  have "length (concat (map (\<lambda>block_y.
           concat (map (\<lambda>block_x. f (block_cells g c block_y block_x))
                       (block_positions x' w' c s)))
           (block_positions y' h' c s)))
        = length (block_positions y' h' c s) * (n_blocks w' c s * (c * (c * b)))"
    by (rule length_concat_const) (use row in blast)
  then show ?thesis by (simp add: block_positions_def)
qed

lemma descriptor_length:
  assumes cfg: "valid_config h"
    and su0: "stride_unit h \<noteq> 0"
    and ok: "fst (process img h) = None"
    and win: "valid_window window (snd (process img h))"
    and norm: "\<forall>v. length (block_norm h v) = length v"
  shows "length (descriptor (snd (process img h)) window) =
           unat (binning h) * (unat (blocksize h) div unat (cellsize h)) ^ 2
           * n_blocks (cells h (rect_height window)) (unat (blocksize h) div unat (cellsize h))
               (unat (stride h) div unat (cellsize h))
           * n_blocks (cells h (rect_width window)) (unat (blocksize h) div unat (cellsize h))
               (unat (stride h) div unat (cellsize h))"
proof -
  note pf = process_fields [OF ok]
  note wf = window_facts [OF cfg ok win]
  have "0 < unat (stride_unit h)" using su0 by (simp add: unat_gt_0)
  then have s0: "0 < unat (stride h) div unat (cellsize h)" using wf(4) by (simp add: pf)
  show ?thesis
    using descriptor_blocks_length [OF norm wf(1) s0 wf(9) wf(10) wf(11) wf(12)]
    by (simp add: descriptor_def Let_def pf cells_def power2_eq_square algebra_simps)
qed

section \<open>Evaluation of the examples\<close>

lemma replicate_numeral: "replicate (numeral k) x = x # replicate (pred_numeral k) x"
  by (simp add: numeral_eq_Suc)

lemma list_update_Cons_numeral: "(x # xs)[numeral k := y] = x # xs[pred_numeral k := y]"
  by (simp add: numeral_eq_Suc)

lemma upt_0_numeral: "[0..<numeral n] = 0 # [1..<numeral n]"
  by (simp add: upt_rec)

lemma upt_1_numeral: "[1..<numeral n] = (if (1::nat) < numeral n then 1 # [2..<numeral n] else [])"
proof -
  have "Suc 1 = 2" by simp
  then show ?thesis by (subst upt_rec) (simp only:)
qed

lemma upt_Suc_0_numeral:
  "[Suc 0..<numeral n] = (if (1::nat) < numeral n then 1 # [2..<numeral n] else [])"
  using upt_1_numeral [of n] by (simp only: One_nat_def)

lemmas list_eval = upt_0_numeral upt_1_numeral upt_Suc_0_numeral replicate_numeral
  list_update_Cons_numeral

lemmas ctor_defs = example_hog_def HOG_def check_ctor_params_def GRADIENT_UNSIGNED_def
  GRADIENT_SIGNED_def Let_def none_def

lemmas process_defs = example_image_def process_def clear_internals_def
  magnitude_and_orientation_def process_row_def process_one_cell_def process_cell_def
  bin_vote_def cast_int_def Mat_roi_def resize_def to_cell_units_def

lemma HOG_fields:
  assumes "HOG b c s n g f = Inr h"
  shows "blocksize h = b" "cellsize h = c" "stride h = s" "grad_type h = g" "binning h = n"
    "bin_width h = g div n" "n_cells_per_block_y h = b div c" "n_cells_per_block_x h = b div c"
    "stride_unit h = s div c" "block_norm h = f" "mag h = empty_Mat" "ori h = empty_Mat"
    "cell_hists h = []"
  using assms by (auto simp: HOG_def Let_def split: if_splits sum.splits)

lemma example_image_fields: "img_rows (example_image r c a) = r" "img_cols (example_image r c a) = c"
  "img_data (example_image r c a)"
  by (simp_all add: example_image_def)

lemma example_window_fields: "rect_x (example_window x y w h) = x"  "rect_y (example_window x y w h) = y"
  "rect_width (example_window x y w h) = w"  "rect_height (example_window x y w h) = h"
  by (simp_all add: example_window_def)

lemmas descriptor_defs = descriptor_def cells_def block_positions_def n_blocks_def block_cells_def Let_def

lemmas retrieve_eval = retrieve_def Let_def to_cell_units_def block_y_loop.simps
  block_x_loop.simps cell_y_loop.simps cell_x_loop.simps example_window_fields
  example_image_fields none_def

text \<open>
  The object \<open>HOG(2, 1, 1, 9, GRADIENT_UNSIGNED, none)\<close> on a 2 by 2 image, and the window
  that covers the image.
\<close>

lemma small_hog: "HOG 2 1 1 9 GRADIENT_UNSIGNED none = Inr (example_hog 2 1 1 9)"
  by (simp add: ctor_defs)

lemmas small_hog_fields = HOG_fields [OF small_hog, simplified]

lemma small_process: "fst (process (example_image 2 2 100) (example_hog 2 1 1 9)) = None"
  by (simp add: ctor_defs process_defs list_eval)

lemma small_grid: "cell_hists (snd (process (example_image 2 2 100) (example_hog 2 1 1 9)))
   = [[[0,0,0,0,0,1,0,0,0],[0,0,0,0,0,1,0,0,0]],[[0,0,0,0,0,1,0,0,0],[0,0,0,0,0,1,0,0,0]]]"
  by (simp add: ctor_defs process_defs list_eval)

lemmas small_fields = process_fields [OF small_process, unfolded small_hog_fields] small_grid

lemma small_config: "valid_config (example_hog 2 1 1 9)"
  by (rule HOG_valid_config [OF small_hog])

lemma small_window: "valid_window (example_window 0 0 2 2) (snd (process (example_image 2 2 100) (example_hog 2 1 1 9)))"
  by (simp add: valid_window_def small_fields example_window_fields example_image_fields)

lemma small_desc: "descriptor (snd (process (example_image 2 2 100) (example_hog 2 1 1 9))) (example_window 0 0 2 2) = 
   [0,0,0,0,0,1,0,0,0,0,0,0,0,0,1,0,0,0,0,0,0,0,0,1,0,0,0,0,0,0,0,0,1,0,0,0]"
  by (simp add: descriptor_defs small_fields example_window_fields list_eval none_def)

lemma small_retrieve: "retrieve (example_window 0 0 2 2) (snd (process (example_image 2 2 100) (example_hog 2 1 1 9))) = 
   Some (Inr [0,0,0,0,0,1,0,0,0,0,0,0,0,0,1,0,0,0,0,0,0,0,0,1,0,0,0,0,0,0,0,0,1,0,0,0], snd (process (example_image 2 2 100) (example_hog 2 1 1 9)))"
  by (simp add: retrieve_def Let_def to_cell_units_def block_y_loop.simps block_x_loop.simps cell_y_loop.simps cell_x_loop.simps small_fields example_window_fields example_image_fields none_def)

section \<open>Errors and divergence of the block loops\<close>

lemma cell_x_loop_error: "cell_x_loop h cy xe cx bh = Inl e \<Longrightarrow> e = OutOfBoundsAccess"
proof (induction h cy xe cx bh rule: cell_x_loop.induct)
  case (1 h cy xe cx bh)
  from "1.prems" show ?case
    by (subst (asm) cell_x_loop.simps) (auto split: if_splits intro: "1.IH")
qed

lemma cell_y_loop_error: "cell_y_loop h bx ye cy bh = Inl e \<Longrightarrow> e = OutOfBoundsAccess"
proof (induction h bx ye cy bh rule: cell_y_loop.induct)
  case (1 h bx ye cy bh)
  from "1.prems" show ?case
    by (subst (asm) cell_y_loop.simps)
      (auto split: if_splits sum.splits intro: "1.IH" dest: cell_x_loop_error)
qed

lemma block_x_loop_error:
  assumes "block_x_loop h block_y x_last block_x hog_hist = Some (Inl e)"
  shows "e = OutOfBoundsAccess"
proof -
  have "\<forall>e. r = Inl e \<longrightarrow> e = OutOfBoundsAccess"
    if "block_x_loop h block_y x_last block_x hog_hist = Some r" for r
  proof (rule block_x_loop.raw_induct
      [where P = "\<lambda>h block_y x_last block_x hog_hist r. \<forall>e. r = Inl e \<longrightarrow> e = OutOfBoundsAccess",
        OF _ that])
    fix f h block_y x_last block_x hog_hist r
    assume IH: "\<And>block_y x_last block_x hog_hist b y.
        f block_y x_last block_x hog_hist b = Some y \<Longrightarrow>
        \<forall>e. y = Inl e \<longrightarrow> e = OutOfBoundsAccess"
      and eq: "(if block_x \<le> x_last
         then case cell_y_loop h block_x (block_y + n_cells_per_block_y h) block_y [] of
                Inl e \<Rightarrow> Some (Inl e)
              | Inr block_hist \<Rightarrow>
                  f h block_y x_last (block_x + stride_unit h)
                    (hog_hist @ block_norm h block_hist)
         else Some (Inr hog_hist)) = Some r"
    show "\<forall>e. r = Inl e \<longrightarrow> e = OutOfBoundsAccess"
      using eq IH by (auto split: if_splits sum.splits dest: cell_y_loop_error)
  qed
  then show ?thesis using assms by blast
qed

lemma block_y_loop_error:
  assumes "block_y_loop h x x_last y_last block_y hog_hist = Some (Inl e)"
  shows "e = OutOfBoundsAccess"
proof -
  have "\<forall>e. r = Inl e \<longrightarrow> e = OutOfBoundsAccess"
    if run: "block_y_loop h x x_last y_last block_y hog_hist = Some r" for r
  proof -
    note rule = block_y_loop.raw_induct
      [where P = "\<lambda>h x x_last y_last block_y hog_hist r.
                    \<forall>e. r = Inl e \<longrightarrow> e = OutOfBoundsAccess"
         and xa = "(((((h, x), x_last), y_last), block_y), hog_hist)" and y = r, simplified]
    show ?thesis
    proof (rule rule [OF _ run])
      fix f h x x_last y_last block_y hog_hist r
      assume IH: "\<And>x x_last y_last block_y hog_hist b y.
          f x x_last y_last block_y hog_hist b = Some y \<Longrightarrow>
          \<forall>e. y = Inl e \<longrightarrow> e = OutOfBoundsAccess"
        and eq: "(if block_y \<le> y_last
           then case block_x_loop h block_y x_last x hog_hist of
                  None \<Rightarrow> None
                | Some (Inl e) \<Rightarrow> Some (Inl e)
                | Some (Inr hog_hist') \<Rightarrow>
                    f h x x_last y_last (block_y + stride_unit h) hog_hist'
           else Some (Inr hog_hist)) = Some r"
      show "\<forall>e. r = Inl e \<longrightarrow> e = OutOfBoundsAccess"
        using eq IH
        by (auto split: if_splits sum.splits option.splits dest: block_x_loop_error)
    qed
  qed
  then show ?thesis using assms by blast
qed

lemma block_x_loop_zero_stride:
  assumes run: "block_x_loop h block_y x_last block_x hog_hist = Some r"
    and zero: "stride_unit h = 0" and inside: "block_x \<le> x_last"
  shows "\<exists>e. cell_y_loop h block_x (block_y + n_cells_per_block_y h) block_y [] = Inl e"
proof -
  have "stride_unit h = 0 \<longrightarrow> block_x \<le> x_last \<longrightarrow>
          (\<exists>e. cell_y_loop h block_x (block_y + n_cells_per_block_y h) block_y [] = Inl e)"
  proof (rule block_x_loop.raw_induct
      [where P = "\<lambda>h block_y x_last block_x hog_hist r.
          stride_unit h = 0 \<longrightarrow> block_x \<le> x_last \<longrightarrow>
          (\<exists>e. cell_y_loop h block_x (block_y + n_cells_per_block_y h) block_y [] = Inl e)",
        OF _ run])
    fix f h block_y x_last block_x hog_hist r
    assume IH: "\<And>block_y x_last block_x hog_hist b y.
        f block_y x_last block_x hog_hist b = Some y \<Longrightarrow>
        stride_unit block_y = 0 \<longrightarrow> hog_hist \<le> block_x \<longrightarrow>
        (\<exists>e. cell_y_loop block_y hog_hist (x_last + n_cells_per_block_y block_y) x_last []
               = Inl e)"
      and eq: "(if block_x \<le> x_last
         then case cell_y_loop h block_x (block_y + n_cells_per_block_y h) block_y [] of
                Inl e \<Rightarrow> Some (Inl e)
              | Inr block_hist \<Rightarrow>
                  f h block_y x_last (block_x + stride_unit h)
                    (hog_hist @ block_norm h block_hist)
         else Some (Inr hog_hist)) = Some r"
    show "stride_unit h = 0 \<longrightarrow> block_x \<le> x_last \<longrightarrow>
          (\<exists>e. cell_y_loop h block_x (block_y + n_cells_per_block_y h) block_y [] = Inl e)"
    proof (intro impI)
      assume z: "stride_unit h = 0" and le: "block_x \<le> x_last"
      show "\<exists>e. cell_y_loop h block_x (block_y + n_cells_per_block_y h) block_y [] = Inl e"
      proof (cases "cell_y_loop h block_x (block_y + n_cells_per_block_y h) block_y []")
        case (Inl e)
        then show ?thesis by blast
      next
        case (Inr block_hist)
        then have "f h block_y x_last block_x (hog_hist @ block_norm h block_hist) = Some r"
          using eq le z by simp
        then show ?thesis using IH z le by blast
      qed
    qed
  qed
  then show ?thesis using zero inside by blast
qed

lemma block_y_loop_zero_stride:
  assumes zero: "stride_unit h = 0" and ys: "block_y \<le> y_last" and xs: "x \<le> x_last"
    and blk: "cell_y_loop h x (block_y + n_cells_per_block_y h) block_y [] = Inr b"
  shows "block_y_loop h x x_last y_last block_y hog_hist = None"
proof -
  have "block_x_loop h block_y x_last x hog_hist = None"
  proof (cases "block_x_loop h block_y x_last x hog_hist")
    case None
    then show ?thesis .
  next
    case (Some r)
    then show ?thesis using block_x_loop_zero_stride [OF Some zero xs] blk by simp
  qed
  then show ?thesis using ys by (subst block_y_loop.simps) simp
qed

lemma retrieve_state: "retrieve window h = Some (r, h') \<Longrightarrow> h' = h"
  by (auto simp: retrieve_def Let_def split: if_splits)

lemma scast_less_iff:
  fixes v :: cint and b :: size_t
  assumes "0 \<le> sint v"
  shows "scast v < b \<longleftrightarrow> sint v < uint b"
proof -
  have "unat (scast v :: size_t) = nat (sint v)" by (rule unat_scast_nonneg [OF assms])
  then have "scast v < b \<longleftrightarrow> nat (sint v) < unat b" by (simp only: word_less_nat_alt)
  also have "\<dots> \<longleftrightarrow> nat (sint v) < nat (uint b)" by (simp only: unat_eq_nat_uint)
  also have "\<dots> \<longleftrightarrow> sint v < uint b" using assms by (rule nat_less_eq_zless)
  finally show ?thesis .
qed

lemma retrieve_error_after_checks:
  assumes "retrieve window h = Some (Inl e, h')"
    and "\<not> (scast (rect_height window) < blocksize h \<or> scast (rect_width window) < blocksize h)"
    and "\<not> (mat_cols (mag h) - rect_width window <s rect_x window
            \<or> mat_rows (mag h) - rect_height window <s rect_y window)"
  shows "e = DivisionByZero \<or> e = OutOfBoundsAccess"
  using assms
  by (auto simp: retrieve_def Let_def split: if_splits dest: block_y_loop_error)

text \<open>
  A stride of \<open>2^64 - 1\<close> with cell size 1: stepping a block position wraps around to
  the position before it. The image is 2 by 3 and the window starts at the second column.
\<close>

lemma wrap_hog: "HOG 2 1 (- 1) 9 GRADIENT_UNSIGNED none = Inr (example_hog 2 1 (- 1) 9)"
  by (simp add: ctor_defs)

lemmas wrap_hog_fields = HOG_fields [OF wrap_hog, simplified]

lemma wrap_process: "fst (process (example_image 2 3 100) (example_hog 2 1 (- 1) 9)) = None"
  by (simp add: ctor_defs process_defs list_eval)

lemma wrap_grid: "cell_hists (snd (process (example_image 2 3 100) (example_hog 2 1 (- 1) 9)))
   = [[[0,0,0,0,0,1,0,0,0],[0,0,0,0,0,1,0,0,0],[0,0,0,0,0,1,0,0,0]],
      [[0,0,0,0,0,1,0,0,0],[0,0,0,0,0,1,0,0,0],[0,0,0,0,0,1,0,0,0]]]"
  by (simp add: ctor_defs process_defs list_eval)

lemmas wrap_fields = process_fields [OF wrap_process, unfolded wrap_hog_fields] wrap_grid

lemma wrap_window: "valid_window (example_window 1 0 2 2)
    (snd (process (example_image 2 3 100) (example_hog 2 1 (- 1) 9)))"
  by (simp add: valid_window_def wrap_fields example_window_fields example_image_fields)

lemma wrap_retrieve:
  "retrieve (example_window 1 0 2 2) (snd (process (example_image 2 3 100) (example_hog 2 1 (- 1) 9)))
   = Some (Inr ([0,0,0,0,0,1,0,0,0, 0,0,0,0,0,1,0,0,0, 0,0,0,0,0,1,0,0,0, 0,0,0,0,0,1,0,0,0,
                 0,0,0,0,0,1,0,0,0, 0,0,0,0,0,1,0,0,0, 0,0,0,0,0,1,0,0,0, 0,0,0,0,0,1,0,0,0]),
           snd (process (example_image 2 3 100) (example_hog 2 1 (- 1) 9)))"
  by (simp add: retrieve_eval wrap_fields word_order.extremum_unique)

lemma wrap_descriptor:
  "descriptor (snd (process (example_image 2 3 100) (example_hog 2 1 (- 1) 9))) (example_window 1 0 2 2)
   = [0,0,0,0,0,1,0,0,0, 0,0,0,0,0,1,0,0,0, 0,0,0,0,0,1,0,0,0, 0,0,0,0,0,1,0,0,0]"
  by (simp add: descriptor_defs wrap_fields example_window_fields list_eval none_def)

text \<open>
  A stride of 0, which \<open>check_ctor_params\<close> accepts: the block position never moves and
  \<open>retrieve\<close> does not return.
\<close>

lemma zero_hog: "HOG 2 1 0 9 GRADIENT_UNSIGNED none = Inr (example_hog 2 1 0 9)"
  by (simp add: ctor_defs)

lemmas zero_hog_fields = HOG_fields [OF zero_hog, simplified]

lemma zero_process: "fst (process (example_image 2 2 100) (example_hog 2 1 0 9)) = None"
  by (simp add: ctor_defs process_defs list_eval)

lemma zero_grid: "cell_hists (snd (process (example_image 2 2 100) (example_hog 2 1 0 9)))
   = [[[0,0,0,0,0,1,0,0,0],[0,0,0,0,0,1,0,0,0]],[[0,0,0,0,0,1,0,0,0],[0,0,0,0,0,1,0,0,0]]]"
  by (simp add: ctor_defs process_defs list_eval)

lemmas zero_fields = process_fields [OF zero_process, unfolded zero_hog_fields] zero_grid

lemma zero_window: "valid_window (example_window 0 0 2 2)
    (snd (process (example_image 2 2 100) (example_hog 2 1 0 9)))"
  by (simp add: valid_window_def zero_fields example_window_fields example_image_fields)

lemma zero_retrieve:
  "retrieve (example_window 0 0 2 2) (snd (process (example_image 2 2 100) (example_hog 2 1 0 9)))
   = None"
proof -
  let ?st = "snd (process (example_image 2 2 100) (example_hog 2 1 0 9))"
  have blk: "cell_y_loop ?st 0 (0 + n_cells_per_block_y ?st) 0 []
     = Inr [0,0,0,0,0,1,0,0,0, 0,0,0,0,0,1,0,0,0, 0,0,0,0,0,1,0,0,0, 0,0,0,0,0,1,0,0,0]"
    by (simp add: cell_y_loop.simps cell_x_loop.simps zero_fields)
  have "block_y_loop ?st 0 0 0 0 [] = None"
    by (rule block_y_loop_zero_stride [OF _ _ _ blk]) (simp_all add: zero_fields)
  then show ?thesis
    by (simp add: retrieve_def Let_def to_cell_units_def zero_fields example_window_fields
        example_image_fields)
qed

text \<open>
  Seven bins in unsigned mode (\<open>_bin_width = 180 / 7 = 25\<close>), and a 3 by 3 image of one
  3 by 3 cell.
\<close>

lemma seven_hog: "HOG 2 1 1 7 GRADIENT_UNSIGNED none = Inr (example_hog 2 1 1 7)"
  by (simp add: ctor_defs)

lemma three_hog: "HOG 3 3 3 9 GRADIENT_UNSIGNED none = Inr (example_hog 3 3 3 9)"
  by (simp add: ctor_defs)

lemmas three_hog_fields = HOG_fields [OF three_hog, simplified]

lemma three_process: "fst (process (example_image 3 3 100) (example_hog 3 3 3 9)) = None"
  by (simp add: ctor_defs process_defs list_eval)

lemma three_grid: "cell_hists (snd (process (example_image 3 3 100) (example_hog 3 3 3 9)))
   = [[[0,0,0,0,0,9,0,0,0]]]"
  by (simp add: ctor_defs process_defs list_eval)

lemmas three_fields = process_fields [OF three_process, unfolded three_hog_fields] three_grid

section \<open>The block positions and the bin of a pixel\<close>

text \<open>
  The block positions of an axis are the cells from which a whole block fits into the
  extent and which are a whole number of steps from the start.
\<close>

lemma block_positions_set:
  assumes "0 < step" and "cpb \<le> extent"
  shows "set (block_positions start extent cpb step) =
           {p. start \<le> p \<and> p + cpb \<le> start + extent \<and> step dvd (p - start)}"
proof (intro set_eqI iffI)
  fix p assume "p \<in> set (block_positions start extent cpb step)"
  then obtain k where k: "k < n_blocks extent cpb step" and p: "p = start + k * step"
    by (auto simp: block_positions_def)
  have "p + cpb \<le> start + extent"
    using steps_inside [OF assms(1) k, of start] assms(2) p by linarith
  then show "p \<in> {p. start \<le> p \<and> p + cpb \<le> start + extent \<and> step dvd (p - start)}"
    using p by simp
next
  fix p assume "p \<in> {p. start \<le> p \<and> p + cpb \<le> start + extent \<and> step dvd (p - start)}"
  then have a: "start \<le> p" and b: "p + cpb \<le> start + extent" and c: "step dvd (p - start)"
    by simp_all
  obtain k where k: "p - start = k * step" using c by (auto simp: dvd_def mult.commute)
  have "k * step \<le> extent - cpb" using a b k by linarith
  then have "k \<le> (extent - cpb) div step"
    using assms(1) by (simp add: less_eq_div_iff_mult_less_eq)
  then have "k < n_blocks extent cpb step" by (simp add: n_blocks_def)
  moreover have "p = start + k * step" using a k by linarith
  ultimately show "p \<in> set (block_positions start extent cpb step)"
    by (auto simp: block_positions_def)
qed

text \<open>
  Where the number of bins divides the gradient range, \<open>_bin_width\<close> is the real quotient,
  and a pixel of non-negative orientation votes its magnitude in the bin
  \<open>floor(orientation / (gradient_range / bin_count))\<close>.
\<close>

lemma bin_vote_voting_bin:
  assumes bw: "bin_width h = grad_type h div binning h"
    and dv: "unat (binning h) dvd unat (grad_type h)"
    and g0: "grad_type h \<noteq> 0"
    and a0: "0 \<le> a"
    and k: "k = nat \<lfloor>a / (real (unat (grad_type h)) / real (unat (binning h)))\<rfloor>"
    and kl: "k < length hist" and len: "length hist < 2 ^ 31"
  shows "bin_vote h a m hist = (None, hist[k := hist ! k + m])"
proof -
  have gn: "0 < unat (grad_type h)" using g0 by (simp add: unat_gt_0)
  have bwn: "unat (bin_width h) = unat (grad_type h) div unat (binning h)"
    by (simp add: bw unat_div)
  have n0: "0 < unat (binning h)" using dv gn by (auto intro: Nat.gr0I)
  have "unat (binning h) \<le> unat (grad_type h)" using dv gn by (rule dvd_imp_le)
  then have bwp: "0 < unat (bin_width h)" using n0 by (simp add: bwn div_greater_zero_iff)
  then have bw0: "bin_width h \<noteq> 0" by (simp add: unat_gt_0)
  have q: "real (unat (bin_width h)) = real (unat (grad_type h)) / real (unat (binning h))"
    by (simp add: bwn real_of_nat_div [OF dv])
  let ?q = "a / real (unat (bin_width h))"
  have q0: "0 \<le> ?q" using a0 by (rule divide_nonneg_nonneg) (rule of_nat_0_le_iff)
  have fl: "nat \<lfloor>?q\<rfloor> = k" by (simp only: k q)
  have f0: "0 \<le> \<lfloor>?q\<rfloor>" using q0 by simp
  then have fk: "\<lfloor>?q\<rfloor> = int k" using fl by linarith
  have k31: "int k < 2 ^ 31" using kl len by (simp add: nat_less_iff flip: of_nat_less_iff)
  have c: "cast_int ?q = Inr (word_of_int (int k))"
    using q0 fk k31 by (simp add: cast_int_def)
  have "sint (word_of_int (int k) :: cint) = int k"
  proof -
    have "sint (word_of_int (int k) :: cint) = signed_take_bit 31 (int k)"
      by (simp only: sint_sbintrunc') simp
    also have "\<dots> = int k"
    proof (rule signed_take_bit_int_eq_self)
      have "- (2 ^ 31) \<le> (0::int)" by simp
      also have "\<dots> \<le> int k" by simp
      finally show "- (2 ^ 31) \<le> int k" .
      show "int k < 2 ^ 31" by (rule k31)
    qed
    finally show ?thesis .
  qed
  then have "unat (scast (word_of_int (int k) :: cint) :: size_t) = k"
    using unat_scast_nonneg [of "word_of_int (int k)"] by simp
  then show ?thesis using bw0 c kl by (simp add: bin_vote_def)
qed

section \<open>The cell pass computes the voting histograms\<close>

text \<open>
  A loop whose body never fails is a fold.
\<close>

lemma for_loop_fold:
  assumes "P s"
    and "\<And>j s. j \<in> set js \<Longrightarrow> P s \<Longrightarrow> body j s = (None, f j s) \<and> P (f j s)"
  shows "for_loop js body s = (None, fold f js s) \<and> P (fold f js s)"
  using assms
proof (induction js arbitrary: s)
  case Nil
  then show ?case by simp
next
  case (Cons j js)
  have b: "body j s = (None, f j s)" and P': "P (f j s)"
    using Cons.prems(2) [of j s] Cons.prems(1) by simp_all
  have "for_loop js body (f j s) = (None, fold f js (f j s)) \<and> P (fold f js (f j s))"
    by (rule Cons.IH [OF P']) (use Cons.prems(2) in simp)
  then show ?case using b by simp
qed

text \<open>
  With an orientation in \<open>[0, 360)\<close> the bin of the specification is a bin of the
  histogram.
\<close>

lemma voting_bin_range:
  assumes g: "g = GRADIENT_SIGNED \<or> g = GRADIENT_UNSIGNED"
    and n0: "0 < unat n" and a: "0 \<le> a" "a < 360"
  shows "0 \<le> voting_bin g n a \<and> voting_bin g n a < int (unat n)"
proof -
  define e where "e = effective_orientation g a"
  define G where "G = real (unat g)"
  define N where "N = real (unat n)"
  have vb: "voting_bin g n a = \<lfloor>e / (G / N)\<rfloor>"
    by (simp only: voting_bin_def e_def G_def N_def)
  have G: "0 < G" and e: "0 \<le> e" "e < G"
    using g a
    by (auto simp: G_def e_def effective_orientation_def GRADIENT_SIGNED_def
        GRADIENT_UNSIGNED_def)
  have N: "0 < N" unfolding N_def using n0 by (simp only: of_nat_0_less_iff)
  have "0 \<le> e / (G / N)" using e G N by simp
  then have lo: "0 \<le> \<lfloor>e / (G / N)\<rfloor>" by simp
  have "e / (G / N) = (e / G) * N" by simp
  also have "\<dots> < 1 * N"
  proof (rule mult_strict_right_mono)
    show "e / G < 1" using e G by simp
    show "0 < N" by (rule N)
  qed
  finally have "e / (G / N) < of_int (int (unat n))" by (simp add: N_def)
  then have "\<lfloor>e / (G / N)\<rfloor> < int (unat n)" by (simp only: floor_less_iff)
  then show ?thesis using lo vb by simp
qed

lemma bin_vote_vote:
  assumes bw: "bin_width h = grad_type h div binning h"
    and dv: "unat (binning h) dvd unat (grad_type h)"
    and g: "grad_type h = GRADIENT_SIGNED \<or> grad_type h = GRADIENT_UNSIGNED"
    and a: "0 \<le> raw" "raw < 360"
    and len: "length hist = unat (binning h)"
  shows "bin_vote h (effective_orientation (grad_type h) raw) m hist
           = (None, vote (voting_bin (grad_type h) (binning h) raw) m hist)
         \<and> length (vote (voting_bin (grad_type h) (binning h) raw) m hist) = unat (binning h)"
proof -
  have g0: "grad_type h \<noteq> 0"
    using g by (auto simp: GRADIENT_SIGNED_def GRADIENT_UNSIGNED_def)
  then have gp: "0 < unat (grad_type h)" by (simp add: unat_gt_0)
  have n0: "0 < unat (binning h)" using dv gp by (auto intro: Nat.gr0I)
  have "unat (binning h) \<le> unat (grad_type h)" using dv gp by (rule dvd_imp_le)
  moreover have "unat (grad_type h) \<le> 360"
    using g by (auto simp: GRADIENT_SIGNED_def GRADIENT_UNSIGNED_def)
  ultimately have "unat (binning h) \<le> 360" by linarith
  then have l31: "length hist < 2 ^ 31" using len by simp
  have e0: "0 \<le> effective_orientation (grad_type h) raw"
    using a by (simp add: effective_orientation_def)
  note r = voting_bin_range [OF g n0 a]
  have kl: "nat (voting_bin (grad_type h) (binning h) raw) < length hist"
    using r len by linarith
  have "bin_vote h (effective_orientation (grad_type h) raw) m hist
          = (None, hist[nat (voting_bin (grad_type h) (binning h) raw) :=
                     hist ! nat (voting_bin (grad_type h) (binning h) raw) + m])"
    by (rule bin_vote_voting_bin [OF bw dv g0 e0 _ kl l31]) (simp only: voting_bin_def)
  then show ?thesis by (simp add: vote_def len)
qed

text \<open>
  Where the number of bins divides the gradient range and the orientations of the cell are
  in \<open>[0, 360)\<close>, \<open>process_cell\<close> returns the voting histogram of the cell.
\<close>

lemma process_cell_voting:
  assumes bw: "bin_width h = grad_type h div binning h"
    and dv: "unat (binning h) dvd unat (grad_type h)"
    and g: "grad_type h = GRADIENT_SIGNED \<or> grad_type h = GRADIENT_UNSIGNED"
    and range: "\<forall>i j. 0 \<le> mat_at cell_ori i j \<and> mat_at cell_ori i j < 360"
  shows "process_cell h cell_mag cell_ori = Inr (cell_voting h cell_mag cell_ori)"
proof -
  let ?P = "\<lambda>hist :: THist. length hist = unat (binning h)"
  let ?rows = "[0..<unat (scast (mat_rows cell_mag) :: size_t)]"
  let ?cols = "[0..<unat (scast (mat_cols cell_mag) :: size_t)]"
  let ?f = "\<lambda>i j. vote (voting_bin (grad_type h) (binning h) (mat_at cell_ori i j))
                      (mat_at cell_mag i j)"
  let ?body = "\<lambda>i j. bin_vote h (effective_orientation (grad_type h) (mat_at cell_ori i j))
                         (mat_at cell_mag i j)"
  have inner: "for_loop ?cols (?body i) s = (None, fold (?f i) ?cols s) \<and> ?P (fold (?f i) ?cols s)"
    if "?P s" for i s
  proof (rule for_loop_fold [where P = ?P, OF that])
    fix j s assume "?P s"
    then show "?body i j s = (None, ?f i j s) \<and> ?P (?f i j s)"
      using bin_vote_vote [OF bw dv g _ _, of "mat_at cell_ori i j" s "mat_at cell_mag i j"] range
      by simp
  qed
  have outer: "for_loop ?rows (\<lambda>i. for_loop ?cols (?body i)) (replicate (unat (binning h)) 0)
      = (None, fold (\<lambda>i. fold (?f i) ?cols) ?rows (replicate (unat (binning h)) 0))
      \<and> ?P (fold (\<lambda>i. fold (?f i) ?cols) ?rows (replicate (unat (binning h)) 0))"
    by (rule for_loop_fold [where P = ?P]) (simp_all add: inner)
  show ?thesis
  proof (cases "grad_type h = GRADIENT_SIGNED")
    case True
    have eo: "\<And>x. effective_orientation (grad_type h) x = x"
      using True by (simp add: effective_orientation_def)
    note o = conjunct1 [OF outer, unfolded eo]
    show ?thesis
      unfolding process_cell_def Let_def cell_voting_def
      by (simp only: if_P [OF True] o prod.case option.case)
  next
    case False
    have eo: "\<And>x. effective_orientation (grad_type h) x = (if 180 \<le> x then x - 180 else x)"
      using False by (simp add: effective_orientation_def)
    note o = conjunct1 [OF outer, unfolded eo]
    show ?thesis
      unfolding process_cell_def Let_def cell_voting_def
      by (simp only: if_not_P [OF False] o prod.case option.case)
  qed
qed

text \<open>
  A counted loop whose body succeeds under an invariant succeeds, and the invariant holds
  after it.
\<close>

lemma for_loop_from_total:
  assumes "I k s"
    and "\<And>i s. k \<le> i \<Longrightarrow> i < n \<Longrightarrow> I i s \<Longrightarrow> fst (body i s) = None \<and> I (Suc i) (snd (body i s))"
    and "k \<le> n"
  shows "fst (for_loop [k..<n] body s) = None \<and> I n (snd (for_loop [k..<n] body s))"
  using assms
proof (induction "n - k" arbitrary: k s)
  case 0
  then show ?case by simp
next
  case (Suc d)
  then have kn: "k < n" by linarith
  then have u: "[k..<n] = k # [Suc k..<n]" by (simp add: upt_rec)
  have st: "fst (body k s) = None \<and> I (Suc k) (snd (body k s))"
    using Suc.prems(2) [of k s] Suc.prems(1) kn by simp
  obtain s' where b: "body k s = (None, s')" and I': "I (Suc k) s'"
    using st by (cases "body k s") auto
  have "fst (for_loop [Suc k..<n] body s') = None \<and> I n (snd (for_loop [Suc k..<n] body s'))"
  proof (rule Suc.hyps(1) [OF _ I'])
    show "d = n - Suc k" using Suc.hyps(2) by linarith
    show "\<And>i s. Suc k \<le> i \<Longrightarrow> i < n \<Longrightarrow> I i s
            \<Longrightarrow> fst (body i s) = None \<and> I (Suc i) (snd (body i s))"
      using Suc.prems(2) by simp
    show "Suc k \<le> n" using kn by simp
  qed
  then show ?case using b u by simp
qed

text \<open>
  The rectangle of a cell of the grid lies inside the maps, and its coordinates do not wrap.
\<close>

lemma sint_ucast_small:
  fixes w :: size_t
  assumes "unat w < 2 ^ 31"
  shows "sint (ucast w :: cint) = int (unat w)"
proof -
  have "int (unat w) < int (2 ^ 31)" using assms by (simp only: of_nat_less_iff)
  then have u: "uint w < 2 ^ 31" by (simp only: uint_nat of_nat_power of_nat_numeral)
  have "sint (ucast w :: cint) = sint (word_of_int (uint w) :: cint)"
    by (simp only: ucast_eq)
  also have "\<dots> = signed_take_bit 31 (uint w)"
    by (simp only: sint_sbintrunc') simp
  also have "\<dots> = uint w"
  proof (rule signed_take_bit_int_eq_self)
    have "0 \<le> uint w" by (rule uint_ge_0)
    moreover have "- (2 ^ 31) \<le> (0::int)" by simp
    ultimately show "- (2 ^ 31) \<le> uint w" by (rule order_trans [rotated])
    show "uint w < 2 ^ 31" by (rule u)
  qed
  finally show ?thesis by (simp only: uint_nat)
qed

lemma unat_cell_offset:
  fixes c :: size_t
  assumes "j * unat c < 2 ^ 31"
  shows "unat (word_of_nat j * c) = j * unat c"
proof -
  have p: "(2::nat) ^ 31 < 2 ^ 64" by simp
  have "unat (word_of_nat j * c) = (j * unat c) mod 2 ^ 64"
    by (simp add: unat_word_ariths unat_of_nat mod_mult_left_eq)
  also have "\<dots> = j * unat c" using assms p by simp
  finally show ?thesis .
qed

lemma cell_rect_inside:
  fixes c :: size_t and dim :: cint
  assumes c0: "0 < unat c" and d0: "0 \<le> sint dim" and j: "j < nat (sint dim) div unat c"
  shows "sint (ucast (word_of_nat j * c) :: cint) = int (j * unat c)"
    and "sint (ucast c :: cint) = int (unat c)"
    and "int (j * unat c) + int (unat c) \<le> sint dim"
proof -
  have d31: "nat (sint dim) < 2 ^ 31" by (rule nat_sint_bound)
  have "Suc j \<le> nat (sint dim) div unat c" using j by simp
  then have "Suc j * unat c \<le> nat (sint dim) div unat c * unat c" by (rule mult_le_mono1)
  also have "\<dots> \<le> nat (sint dim)" by simp
  finally have le: "j * unat c + unat c \<le> nat (sint dim)" by simp
  have jc: "j * unat c < 2 ^ 31" using le d31 by linarith
  have c31: "unat c < 2 ^ 31" using le d31 by linarith
  show "sint (ucast (word_of_nat j * c) :: cint) = int (j * unat c)"
    using sint_ucast_small [of "word_of_nat j * c"] unat_cell_offset [OF jc] jc by simp
  show "sint (ucast c :: cint) = int (unat c)" by (rule sint_ucast_small [OF c31])
  show "int (j * unat c) + int (unat c) \<le> sint dim" using le d0 by linarith
qed

lemma cell_voting_cong:
  "grad_type s = grad_type t \<Longrightarrow> binning s = binning t \<Longrightarrow> cell_voting s = cell_voting t"
  by (simp add: cell_voting_def fun_eq_iff)

lemma Mat_roi_cell_view:
  assumes c0: "0 < unat c" and R: "0 \<le> sint R" and C: "0 \<le> sint C"
    and i: "i < nat (sint R) div unat c" and j: "j < nat (sint C) div unat c"
  shows "Mat_roi \<lparr>mat_rows = R, mat_cols = C, mat_at = f\<rparr>
           \<lparr>rect_x = ucast (of_nat j * c), rect_y = ucast (of_nat i * c),
            rect_width = ucast c, rect_height = ucast c\<rparr> = Inr (cell_view c f i j)"
proof -
  note x = cell_rect_inside [OF c0 C j]
  note y = cell_rect_inside [OF c0 R i]
  show ?thesis
    unfolding Mat_roi_def cell_view_def
    using x(3) y(3) by (simp add: x(1) x(2) y(1) y(2) del: of_nat_mult of_nat_add)
qed

lemma process_one_cell_total:
  assumes bw: "bin_width t = grad_type t div binning t"
    and dv: "unat (binning t) dvd unat (grad_type t)"
    and g: "grad_type t = GRADIENT_SIGNED \<or> grad_type t = GRADIENT_UNSIGNED"
    and c0: "0 < unat (cellsize t)"
    and mg: "mag t = \<lparr>mat_rows = R, mat_cols = C, mat_at = fm\<rparr>"
    and og: "ori t = \<lparr>mat_rows = R, mat_cols = C, mat_at = fo\<rparr>"
    and R: "0 \<le> sint R" and C: "0 \<le> sint C"
    and i: "i < nat (sint R) div unat (cellsize t)"
    and j: "j < nat (sint C) div unat (cellsize t)"
    and range: "\<forall>y x. 0 \<le> fo y x \<and> fo y x < 360"
    and il: "i < length (cell_hists t)" and jl: "j < length (cell_hists t ! i)"
  shows "process_one_cell i j t =
           (None, t\<lparr>cell_hists := (cell_hists t)[i := (cell_hists t ! i)
              [j := cell_voting t (cell_view (cellsize t) fm i j)
                      (cell_view (cellsize t) fo i j)]]\<rparr>)"
proof -
  note m = Mat_roi_cell_view [OF c0 R C i j, of fm]
  note o = Mat_roi_cell_view [OF c0 R C i j, of fo]
  have r: "\<forall>y x. 0 \<le> mat_at (cell_view (cellsize t) fo i j) y x
              \<and> mat_at (cell_view (cellsize t) fo i j) y x < 360"
    using range by (simp add: cell_view_def)
  note p = process_cell_voting [OF bw dv g r, of "cell_view (cellsize t) fm i j"]
  show ?thesis
    unfolding process_one_cell_def Let_def mg og
    by (simp only: m o p sum.case il jl simp_thms if_True)
qed

lemma process_row_total:
  assumes bw: "bin_width s = grad_type s div binning s"
    and dv: "unat (binning s) dvd unat (grad_type s)"
    and g: "grad_type s = GRADIENT_SIGNED \<or> grad_type s = GRADIENT_UNSIGNED"
    and c0: "0 < unat (cellsize s)"
    and mg: "mag s = \<lparr>mat_rows = R, mat_cols = C, mat_at = fm\<rparr>"
    and og: "ori s = \<lparr>mat_rows = R, mat_cols = C, mat_at = fo\<rparr>"
    and R: "0 \<le> sint R" and C: "0 \<le> sint C"
    and nx: "unat (n_cells_x s) = nat (sint C) div unat (cellsize s)"
    and i: "i < nat (sint R) div unat (cellsize s)"
    and range: "\<forall>y x. 0 \<le> fo y x \<and> fo y x < 360"
    and il: "i < length (cell_hists s)"
  shows "fst (process_row i s) = None"
    and "length (cell_hists (snd (process_row i s))) = length (cell_hists s)"
    and "\<forall>i'. i' \<noteq> i \<longrightarrow> cell_hists (snd (process_row i s)) ! i' = cell_hists s ! i'"
    and "length (cell_hists (snd (process_row i s)) ! i) = unat (n_cells_x s)"
    and "\<forall>j<unat (n_cells_x s). cell_hists (snd (process_row i s)) ! i ! j =
           cell_voting s (cell_view (cellsize s) fm i j) (cell_view (cellsize s) fo i j)"
proof -
  let ?nx = "unat (n_cells_x s)"
  let ?V = "\<lambda>j. cell_voting s (cell_view (cellsize s) fm i j) (cell_view (cellsize s) fo i j)"
  let ?h1 = "s\<lparr>cell_hists := (cell_hists s)[i := resize ?nx [] (cell_hists s ! i)]\<rparr>"
  let ?J = "\<lambda>j t. frame t = frame s \<and> length (cell_hists t) = length (cell_hists s)
      \<and> (\<forall>i'. i' \<noteq> i \<longrightarrow> cell_hists t ! i' = cell_hists s ! i')
      \<and> length (cell_hists t ! i) = ?nx \<and> (\<forall>j'<j. cell_hists t ! i ! j' = ?V j')"
  have p: "process_row i s = for_loop [0..<?nx] (process_one_cell i) ?h1"
    using il by (simp add: process_row_def)
  have "fst (for_loop [0..<?nx] (process_one_cell i) ?h1) = None
      \<and> ?J ?nx (snd (for_loop [0..<?nx] (process_one_cell i) ?h1))"
  proof (rule for_loop_from_total [where I = ?J])
    show "?J 0 ?h1" using il by (simp add: frame_def length_resize)
    show "0 \<le> ?nx" by simp
  next
    fix j t
    assume j: "j < ?nx" and J: "?J j t"
    note f = frame_fields [of t s, OF conjunct1 [OF J]]
    have it: "i < length (cell_hists t)" using J il by simp
    have jt: "j < length (cell_hists t ! i)" using J j by simp
    have jn: "j < nat (sint C) div unat (cellsize t)" using j nx by (simp only: f)
    have step: "process_one_cell i j t =
           (None, t\<lparr>cell_hists := (cell_hists t)[i := (cell_hists t ! i)
              [j := cell_voting t (cell_view (cellsize t) fm i j)
                      (cell_view (cellsize t) fo i j)]]\<rparr>)"
    proof (rule process_one_cell_total [OF _ _ _ _ _ _ R C _ jn range it jt])
      show "bin_width t = grad_type t div binning t" using bw by (simp only: f)
      show "unat (binning t) dvd unat (grad_type t)" using dv by (simp only: f)
      show "grad_type t = GRADIENT_SIGNED \<or> grad_type t = GRADIENT_UNSIGNED"
        using g by (simp only: f)
      show "0 < unat (cellsize t)" using c0 by (simp only: f)
      show "mag t = \<lparr>mat_rows = R, mat_cols = C, mat_at = fm\<rparr>" using mg by (simp only: f)
      show "ori t = \<lparr>mat_rows = R, mat_cols = C, mat_at = fo\<rparr>" using og by (simp only: f)
      show "i < nat (sint R) div unat (cellsize t)" using i by (simp only: f)
    qed
    have v: "cell_voting t = cell_voting s" by (rule cell_voting_cong) (simp_all only: f)
    let ?t' = "t\<lparr>cell_hists := (cell_hists t)[i := (cell_hists t ! i)[j := ?V j]]\<rparr>"
    have step': "process_one_cell i j t = (None, ?t')" using step by (simp only: v f)
    have Jt: "?J (Suc j) ?t'"
    proof (intro conjI allI impI)
      show "frame ?t' = frame s" using J by (simp add: frame_def)
      show "length (cell_hists ?t') = length (cell_hists s)" using J by simp
      show "length (cell_hists ?t' ! i) = ?nx" using J it by simp
    next
      fix i' assume "i' \<noteq> i"
      then show "cell_hists ?t' ! i' = cell_hists s ! i'" using J by simp
    next
      fix j' assume "j' < Suc j"
      then show "cell_hists ?t' ! i ! j' = ?V j'"
        using J it jt by (cases "j' = j") simp_all
    qed
    show "fst (process_one_cell i j t) = None \<and> ?J (Suc j) (snd (process_one_cell i j t))"
      unfolding step' fst_conv snd_conv by (rule conjI [OF refl Jt])
  qed
  then have both: "fst (process_row i s) = None \<and> ?J ?nx (snd (process_row i s))"
    unfolding p .
  note ok = conjunct1 [OF both] and J = conjunct2 [OF both]
  show "fst (process_row i s) = None" by (rule ok)
  show "length (cell_hists (snd (process_row i s))) = length (cell_hists s)" using J by simp
  show "\<forall>i'. i' \<noteq> i \<longrightarrow> cell_hists (snd (process_row i s)) ! i' = cell_hists s ! i'"
    using J by simp
  show "length (cell_hists (snd (process_row i s)) ! i) = ?nx" using J by simp
  show "\<forall>j<?nx. cell_hists (snd (process_row i s)) ! i ! j = ?V j" using J by simp
qed

lemma valid_config_facts:
  assumes "valid_config h"
  shows "bin_width h = grad_type h div binning h"
    and "grad_type h = GRADIENT_SIGNED \<or> grad_type h = GRADIENT_UNSIGNED"
    and "0 < unat (cellsize h)"
proof -
  show "bin_width h = grad_type h div binning h" using assms by (simp add: valid_config_def)
  have c: "check_ctor_params (blocksize h) (cellsize h) (stride h) (binning h) (grad_type h)
             = Inr ()"
    using assms by (simp add: valid_config_def)
  show "grad_type h = GRADIENT_SIGNED \<or> grad_type h = GRADIENT_UNSIGNED"
    using c by (auto simp: check_ctor_params_def split: if_splits)
  have "\<not> cellsize h < 1" using c by (auto simp: check_ctor_params_def split: if_splits)
  then have "cellsize h \<noteq> 0" by auto
  then show "0 < unat (cellsize h)" by (simp add: unat_gt_0)
qed

text \<open>
  \<open>process\<close> succeeds on every image with data that is at least a block wide and high,
  whose orientations are in \<open>[0, 360)\<close>, when the number of bins divides the gradient
  range; every cell of the grid then holds the voting histogram of its pixels.
\<close>

lemma process_cells:
  assumes cfg: "valid_config h"
    and dv: "unat (binning h) dvd unat (grad_type h)"
    and data: "img_data img"
    and rows: "uint (blocksize h) \<le> sint (img_rows img)"
    and cols: "uint (blocksize h) \<le> sint (img_cols img)"
    and range: "\<forall>y x. 0 \<le> img_phase img y x \<and> img_phase img y x < 360"
  shows "fst (process img h) = None"
    and "\<forall>i<cells h (img_rows img). \<forall>j<cells h (img_cols img).
           cell_hists (snd (process img h)) ! i ! j =
             cell_voting h (cell_view (cellsize h) (img_magnitude img) i j)
               (cell_view (cellsize h) (img_phase img) i j)"
proof -
  note vc = valid_config_facts [OF cfg]
  have R: "0 \<le> sint (img_rows img)" using rows uint_ge_0 [of "blocksize h"] by linarith
  have C: "0 \<le> sint (img_cols img)" using cols uint_ge_0 [of "blocksize h"] by linarith
  have c0: "cellsize h \<noteq> 0" using vc(3) by (simp add: unat_gt_0)
  let ?ny = "unat (to_cell_units (img_rows img) (cellsize h))"
  let ?nx = "unat (to_cell_units (img_cols img) (cellsize h))"
  have ny: "?ny = cells h (img_rows img)" by (simp only: to_cell_units_nonneg [OF R] cells_def)
  have nx: "?nx = cells h (img_cols img)" by (simp only: to_cell_units_nonneg [OF C] cells_def)
  let ?V = "\<lambda>i j. cell_voting h (cell_view (cellsize h) (img_magnitude img) i j)
               (cell_view (cellsize h) (img_phase img) i j)"
  let ?h3 = "(image_maps img h)\<lparr>cell_hists := replicate ?ny []\<rparr>"
  have p: "process img h = for_loop [0..<?ny] process_row ?h3"
    using data unat_scast_ge [OF rows] unat_scast_ge [OF cols] c0
    by (simp add: process_def Let_def clear_internals_def magnitude_and_orientation_def
        image_maps_def resize_def)
  let ?I = "\<lambda>k s. frame s = frame ?h3 \<and> length (cell_hists s) = ?ny
      \<and> (\<forall>i<k. length (cell_hists s ! i) = ?nx \<and> (\<forall>j<?nx. cell_hists s ! i ! j = ?V i j))"
  have "fst (for_loop [0..<?ny] process_row ?h3) = None
      \<and> ?I ?ny (snd (for_loop [0..<?ny] process_row ?h3))"
  proof (rule for_loop_from_total [where I = ?I])
    show "?I 0 ?h3" by simp
    show "0 \<le> ?ny" by simp
  next
    fix i s
    assume i: "i < ?ny" and I: "?I i s"
    note f = frame_fields [of s ?h3, OF conjunct1 [OF I]]
    have fh: "grad_type s = grad_type h" "binning s = binning h" "bin_width s = bin_width h"
      "cellsize s = cellsize h"
      "n_cells_x s = to_cell_units (img_cols img) (cellsize h)"
      "mag s = \<lparr>mat_rows = img_rows img, mat_cols = img_cols img, mat_at = img_magnitude img\<rparr>"
      "ori s = \<lparr>mat_rows = img_rows img, mat_cols = img_cols img, mat_at = img_phase img\<rparr>"
      using f by (simp_all add: image_maps_def magnitude_and_orientation_def)
    have il: "i < length (cell_hists s)" using I i by simp
    have v: "cell_voting s = cell_voting h" by (rule cell_voting_cong) (simp_all only: fh)
    note row = process_row_total [of s "img_rows img" "img_cols img" "img_magnitude img"
        "img_phase img" i, unfolded fh v, OF vc(1) dv vc(2) vc(3) refl refl R C _ _ range il]
    have a: "?nx = nat (sint (img_cols img)) div unat (cellsize h)"
      by (rule to_cell_units_nonneg [OF C])
    have b: "i < nat (sint (img_rows img)) div unat (cellsize h)"
      using i by (simp only: to_cell_units_nonneg [OF R])
    note r = row [OF a b]
    have fr: "frame (snd (process_row i s)) = frame ?h3"
      using process_row_frame [of i s] I by simp
    have "?I (Suc i) (snd (process_row i s))"
    proof (intro conjI allI impI)
      show "frame (snd (process_row i s)) = frame ?h3" by (rule fr)
      show "length (cell_hists (snd (process_row i s))) = ?ny" using r(2) I by simp
    next
      fix i' assume "i' < Suc i"
      then show "length (cell_hists (snd (process_row i s)) ! i') = ?nx"
        using r(3) r(4) I by (cases "i' = i") simp_all
    next
      fix i' j assume "i' < Suc i" "j < ?nx"
      then show "cell_hists (snd (process_row i s)) ! i' ! j = ?V i' j"
        using r(3) r(5) I by (cases "i' = i") simp_all
    qed
    then show "fst (process_row i s) = None \<and> ?I (Suc i) (snd (process_row i s))"
      using r(1) by simp
  qed
  then have both: "fst (process img h) = None \<and> ?I ?ny (snd (process img h))"
    unfolding p .
  note ok = conjunct1 [OF both] and I = conjunct2 [OF both]
  show "fst (process img h) = None" by (rule ok)
  show "\<forall>i<cells h (img_rows img). \<forall>j<cells h (img_cols img).
           cell_hists (snd (process img h)) ! i ! j = ?V i j"
    using I by (simp add: ny nx)
qed

section \<open>Rounding to binary32\<close>

text \<open>
  \<open>round_even\<close> is monotone, exact on the integers and within \<open>1/2\<close> of its argument.
\<close>

lemma round_even_of_int: "round_even (of_int n) = n"
  by (simp add: round_even_def)

lemma round_even_floor: "\<lfloor>x\<rfloor> \<le> round_even x \<and> round_even x \<le> \<lfloor>x\<rfloor> + 1"
  by (simp add: round_even_def Let_def)

lemma round_even_error: "\<bar>of_int (round_even x) - x\<bar> \<le> 1 / 2"
proof -
  have "of_int \<lfloor>x\<rfloor> \<le> x" "x < of_int \<lfloor>x\<rfloor> + 1" by linarith+
  then show ?thesis by (auto simp: round_even_def Let_def abs_le_iff)
qed

lemma round_even_mono:
  assumes "x \<le> y"
  shows "round_even x \<le> round_even y"
proof (cases "\<lfloor>x\<rfloor> = \<lfloor>y\<rfloor>")
  case True
  then show ?thesis using assms by (auto simp: round_even_def Let_def)
next
  case False
  then have "\<lfloor>x\<rfloor> < \<lfloor>y\<rfloor>" using floor_mono [OF assms] by linarith
  then show ?thesis using round_even_floor [of x] round_even_floor [of y] by linarith
qed

lemma round_even_unique:
  assumes "\<bar>x - of_int m\<bar> < 1 / 2"
  shows "round_even x = m"
proof -
  have e: "\<bar>of_int (round_even x) - x\<bar> \<le> 1 / 2" by (rule round_even_error)
  have "\<bar>(of_int (round_even x) :: real) - of_int m\<bar> < 1" using assms e by linarith
  then have "\<bar>(of_int (round_even x - m) :: real)\<bar> < 1" by simp
  then have "\<bar>round_even x - m\<bar> < 1" by (simp only: of_int_abs [symmetric] of_int_less_1_iff)
  then show ?thesis by linarith
qed

lemma round_even_tie:
  assumes "x = of_int m + 1 / 2"
  shows "round_even x = (if even m then m else m + 1)"
proof -
  have "\<lfloor>x\<rfloor> = m" using assms by linarith
  then show ?thesis using assms by (simp add: round_even_def Let_def)
qed

text \<open>
  The unit in the last place at \<open>x > 0\<close> has the exponent \<open>e \<ge> -149\<close> with
  \<open>x < 2^(e + 24)\<close>, and \<open>2^(e + 23) \<le> x\<close> unless \<open>e = -149\<close>.
\<close>

lemma ulp_exponent_ge: "- 149 \<le> ulp_exponent x"
  by (simp add: ulp_exponent_def)

lemma ulp_exponent_upper:
  assumes "0 < x"
  shows "x < 2 powr of_int (ulp_exponent x + 24)"
proof -
  have "log 2 x < of_int (\<lfloor>log 2 x\<rfloor> + 1)" by linarith
  also have "\<dots> \<le> of_int (ulp_exponent x + 24)" by (simp add: ulp_exponent_def)
  finally have "log 2 x < of_int (ulp_exponent x + 24)" .
  then have "2 powr log 2 x < 2 powr of_int (ulp_exponent x + 24)" by simp
  then show ?thesis using assms by simp
qed

lemma ulp_exponent_lower:
  assumes "0 < x" and "- 149 < ulp_exponent x"
  shows "2 powr of_int (ulp_exponent x + 23) \<le> x"
proof -
  have "ulp_exponent x = \<lfloor>log 2 x\<rfloor> - 23" using assms(2) by (simp add: ulp_exponent_def max_def split: if_splits)
  then have "of_int (ulp_exponent x + 23) \<le> log 2 x" by simp
  then have "2 powr of_int (ulp_exponent x + 23) \<le> 2 powr log 2 x" by simp
  then show ?thesis using assms(1) by simp
qed

lemma ulp_exponent_unique:
  assumes x: "0 < x" and e: "- 149 \<le> e"
    and up: "x < 2 powr of_int (e + 24)"
    and lo: "e = - 149 \<or> 2 powr of_int (e + 23) \<le> x"
  shows "ulp_exponent x = e"
proof -
  have "2 powr log 2 x < 2 powr of_int (e + 24)" using up x by simp
  then have "log 2 x < of_int (e + 24)" by simp
  then have a: "\<lfloor>log 2 x\<rfloor> < e + 24" by (simp only: floor_less_iff)
  show ?thesis
  proof (cases "2 powr of_int (e + 23) \<le> x")
    case True
    then have "2 powr of_int (e + 23) \<le> 2 powr log 2 x" using x by simp
    then have "of_int (e + 23) \<le> log 2 x" by simp
    then have "e + 23 \<le> \<lfloor>log 2 x\<rfloor>" by (simp only: le_floor_iff)
    then show ?thesis using a e by (simp add: ulp_exponent_def)
  next
    case False
    then have e149: "e = - 149" using lo by simp
    have "\<lfloor>log 2 x\<rfloor> - 23 \<le> - 149" using a e149 by linarith
    then show ?thesis unfolding ulp_exponent_def e149 by (rule max_absorb1)
  qed
qed

lemma ulp_exponent_mono:
  assumes "0 < x" and "x \<le> y"
  shows "ulp_exponent x \<le> ulp_exponent y"
proof -
  have "log 2 x \<le> log 2 y" using assms by simp
  then have "\<lfloor>log 2 x\<rfloor> \<le> \<lfloor>log 2 y\<rfloor>" by (rule floor_mono)
  then show ?thesis by (simp add: ulp_exponent_def)
qed

lemma ulp_pos: "0 < ulp x"
  by (simp add: ulp_def)

text \<open>
  The rounded magnitude: its value from the exponent and the nearest integer mantissa,
  its fixed points \<open>m * 2^e\<close>, its monotonicity and its error of at most half a unit in
  the last place.
\<close>

lemma nearest_eval:
  assumes x: "0 < x" and e: "- 149 \<le> e"
    and up: "x < 2 powr of_int (e + 24)"
    and lo: "e = - 149 \<or> 2 powr of_int (e + 23) \<le> x"
    and m: "\<bar>x / 2 powr of_int e - of_int m\<bar> < 1 / 2"
  shows "nearest x = of_int m * 2 powr of_int e"
proof -
  have u: "ulp x = 2 powr of_int e"
    using ulp_exponent_unique [OF x e up lo] x by (simp add: ulp_def)
  have "round_even (x / 2 powr of_int e) = m" by (rule round_even_unique [OF m])
  then show ?thesis using x by (simp add: nearest_def u)
qed

lemma nearest_tie:
  assumes x: "0 < x" and e: "- 149 \<le> e"
    and up: "x < 2 powr of_int (e + 24)"
    and lo: "e = - 149 \<or> 2 powr of_int (e + 23) \<le> x"
    and m: "x / 2 powr of_int e = of_int m + 1 / 2"
  shows "nearest x = of_int (if even m then m else m + 1) * 2 powr of_int e"
proof -
  have u: "ulp x = 2 powr of_int e"
    using ulp_exponent_unique [OF x e up lo] x by (simp add: ulp_def)
  show ?thesis using x round_even_tie [OF m] by (simp only: nearest_def u abs_of_pos)
qed

lemma nearest_grid:
  assumes m: "0 < m" "m \<le> 2 ^ 24" and e: "- 149 \<le> e" and n: "e = - 149 \<or> 2 ^ 23 \<le> m"
  shows "nearest (of_int m * 2 powr of_int e) = of_int m * 2 powr of_int e"
proof (cases "m = 2 ^ 24")
  case True
  have v: "of_int m * 2 powr of_int e = real_of_int (2 ^ 23) * 2 powr of_int (e + 1)"
    by (simp add: True powr_add)
  show ?thesis
    unfolding v
  proof (rule nearest_eval)
    show "0 < real_of_int (2 ^ 23) * 2 powr of_int (e + 1)" by simp
    show "- 149 \<le> e + 1" using e by simp
    show "real_of_int (2 ^ 23) * 2 powr of_int (e + 1) < 2 powr of_int (e + 1 + 24)"
      by (simp add: powr_add)
    show "e + 1 = - 149 \<or> 2 powr of_int (e + 1 + 23) \<le> real_of_int (2 ^ 23) * 2 powr of_int (e + 1)"
      by (simp add: powr_add)
    show "\<bar>real_of_int (2 ^ 23) * 2 powr of_int (e + 1) / 2 powr of_int (e + 1) - of_int (2 ^ 23)\<bar> < 1 / 2"
      by simp
  qed
next
  case False
  then have lt: "m < 2 ^ 24" using m(2) by simp
  show ?thesis
  proof (rule nearest_eval)
    show "0 < real_of_int m * 2 powr of_int e" using m(1) by simp
    show "- 149 \<le> e" by (rule e)
    have "real_of_int m < of_int (2 ^ 24)" using lt by (simp only: of_int_less_iff)
    then have "real_of_int m < 2 ^ 24" by simp
    then show "real_of_int m * 2 powr of_int e < 2 powr of_int (e + 24)"
      by (simp add: powr_add mult.commute)
    show "e = - 149 \<or> 2 powr of_int (e + 23) \<le> real_of_int m * 2 powr of_int e"
    proof (cases "e = - 149")
      case True
      then show ?thesis by simp
    next
      case False
      then have "2 ^ 23 \<le> m" using n by simp
      then have "(2::real) ^ 23 \<le> real_of_int m" by (simp flip: of_int_le_iff)
      then show ?thesis by (simp add: powr_add mult.commute)
    qed
    show "\<bar>real_of_int m * 2 powr of_int e / 2 powr of_int e - real_of_int m\<bar> < 1 / 2" by simp
  qed
qed

lemma nearest_bounds:
  assumes x: "0 < x"
  shows "round_even (x / ulp x) \<le> 2 ^ 24"
    and "- 149 < ulp_exponent x \<Longrightarrow> 2 ^ 23 \<le> round_even (x / ulp x)"
    and "0 \<le> round_even (x / ulp x)"
proof -
  let ?e = "ulp_exponent x"
  have u: "ulp x = 2 powr of_int ?e" using x by (simp add: ulp_def)
  have "x < 2 powr of_int (?e + 24)" by (rule ulp_exponent_upper [OF x])
  then have "x / ulp x < 2 ^ 24" by (simp add: u powr_add pos_divide_less_eq mult.commute)
  then have "x / ulp x \<le> of_int (2 ^ 24)" by simp
  then have "round_even (x / ulp x) \<le> round_even (of_int (2 ^ 24))" by (rule round_even_mono)
  then show "round_even (x / ulp x) \<le> 2 ^ 24" by (simp only: round_even_of_int)
  have "of_int 0 \<le> x / ulp x" using x ulp_pos [of x] by simp
  then have "round_even (of_int 0) \<le> round_even (x / ulp x)" by (rule round_even_mono)
  then show "0 \<le> round_even (x / ulp x)" by (simp only: round_even_of_int)
  assume "- 149 < ?e"
  then have "2 powr of_int (?e + 23) \<le> x" by (rule ulp_exponent_lower [OF x])
  then have "2 ^ 23 \<le> x / ulp x" by (simp add: u powr_add pos_le_divide_eq mult.commute)
  then have "of_int (2 ^ 23) \<le> x / ulp x" by simp
  then have "round_even (of_int (2 ^ 23)) \<le> round_even (x / ulp x)" by (rule round_even_mono)
  then show "2 ^ 23 \<le> round_even (x / ulp x)" by (simp only: round_even_of_int)
qed

lemma nearest_nonneg: "0 \<le> nearest x"
proof (cases "x = 0")
  case True
  then show ?thesis by (simp add: nearest_def round_even_of_int [of 0, simplified])
next
  case False
  then have a: "0 < \<bar>x\<bar>" by simp
  have "ulp \<bar>x\<bar> = ulp x" by (simp add: ulp_def)
  then show ?thesis using nearest_bounds(3) [OF a] ulp_pos [of x] by (simp add: nearest_def)
qed

lemma nearest_idem:
  assumes x: "0 < x"
  shows "nearest x = 0 \<or> nearest (nearest x) = nearest x"
proof (cases "round_even (x / ulp x) = 0")
  case True
  then show ?thesis using x by (simp add: nearest_def)
next
  case False
  let ?m = "round_even (x / ulp x)"
  let ?e = "ulp_exponent x"
  have v: "nearest x = of_int ?m * 2 powr of_int ?e" using x by (simp add: nearest_def ulp_def)
  have "nearest (of_int ?m * 2 powr of_int ?e) = of_int ?m * 2 powr of_int ?e"
  proof (rule nearest_grid)
    show "0 < ?m" using nearest_bounds(3) [OF x] False by linarith
    show "?m \<le> 2 ^ 24" by (rule nearest_bounds(1) [OF x])
    show "- 149 \<le> ?e" by (rule ulp_exponent_ge)
    show "?e = - 149 \<or> 2 ^ 23 \<le> ?m"
      using nearest_bounds(2) [OF x] ulp_exponent_ge [of x] by linarith
  qed
  then show ?thesis by (simp only: v) simp
qed

lemma nearest_mono:
  assumes x: "0 < x" and xy: "x \<le> y"
  shows "nearest x \<le> nearest y"
proof -
  have y: "0 < y" using x xy by linarith
  let ?ex = "ulp_exponent x" and ?ey = "ulp_exponent y"
  have ux: "ulp x = 2 powr of_int ?ex" using x by (simp add: ulp_def)
  have uy: "ulp y = 2 powr of_int ?ey" using y by (simp add: ulp_def)
  have nx: "nearest x = of_int (round_even (x / ulp x)) * ulp x" using x by (simp add: nearest_def)
  have ny: "nearest y = of_int (round_even (y / ulp y)) * ulp y" using y by (simp add: nearest_def)
  have le: "?ex \<le> ?ey" by (rule ulp_exponent_mono [OF x xy])
  show ?thesis
  proof (cases "?ex = ?ey")
    case True
    then have u: "ulp x = ulp y" by (simp add: ux uy)
    have "x / ulp y \<le> y / ulp y" using xy ulp_pos [of y] by (simp add: divide_right_mono)
    then have "round_even (x / ulp y) \<le> round_even (y / ulp y)" by (rule round_even_mono)
    then have "real_of_int (round_even (x / ulp y)) \<le> of_int (round_even (y / ulp y))" by simp
    then show ?thesis unfolding nx ny u using ulp_pos [of y] by (simp add: mult_right_mono)
  next
    case False
    then have lt: "?ex + 1 \<le> ?ey" using le by linarith
    then have ey: "- 149 < ?ey" using ulp_exponent_ge [of x] by linarith
    have "real_of_int (round_even (x / ulp x)) \<le> of_int (2 ^ 24)"
      using nearest_bounds(1) [OF x] by (simp only: of_int_le_iff)
    then have "nearest x \<le> of_int (2 ^ 24) * ulp x"
      unfolding nx using ulp_pos [of x] by (simp only: mult_right_mono less_imp_le)
    also have "\<dots> = 2 powr of_int (?ex + 1 + 23)" by (simp add: ux powr_add)
    also have "\<dots> \<le> 2 powr of_int (?ey + 23)" using lt by simp
    also have "\<dots> = of_int (2 ^ 23) * ulp y" by (simp add: uy powr_add)
    also have "\<dots> \<le> nearest y"
    proof -
      have "real_of_int (2 ^ 23) \<le> of_int (round_even (y / ulp y))"
        using nearest_bounds(2) [OF y ey] by (simp only: of_int_le_iff)
      then show ?thesis unfolding ny using ulp_pos [of y] by (simp only: mult_right_mono less_imp_le)
    qed
    finally show ?thesis .
  qed
qed


lemma nearest_minus: "nearest (- x) = nearest x"
  by (simp add: nearest_def ulp_def)

text \<open>
  \<open>fl\<close> returns binary32 values, is monotone on the non-negative reals, and the sum of
  non-negative binary32 values is at least each of them.
\<close>

lemma fl_idem:
  assumes "fl x = Finite s"
  shows "fl s = Finite s"
proof -
  have pos: "fl s = Finite s" if x: "0 < x" and s: "s = nearest x" and b: "\<not> 2 ^ 128 \<le> nearest x"
    for x s
  proof (cases "s = 0")
    case True
    then show ?thesis by (simp add: fl_def)
  next
    case False
    then have i: "nearest s = s" using nearest_idem [OF x] s by simp
    have "0 < s" using False nearest_nonneg [of x] s by simp
    then show ?thesis using i b s by (simp add: fl_def)
  qed
  consider "x = 0" | "0 < x" | "x < 0" by linarith
  then show ?thesis
  proof cases
    case 1
    then show ?thesis using assms by (simp add: fl_def)
  next
    case 2
    then show ?thesis using assms pos [of x s] by (simp add: fl_def split: if_splits)
  next
    case 3
    then have a: "0 < - x" by simp
    have b: "\<not> 2 ^ 128 \<le> nearest (- x)" and s: "- s = nearest (- x)"
      using assms 3 by (auto simp: fl_def nearest_minus split: if_splits)
    have "fl (- s) = Finite (- s)" by (rule pos [OF a s b])
    then show ?thesis
      by (cases "s = 0") (auto simp: fl_def nearest_minus split: if_splits)
  qed
qed

lemma fl_mono:
  assumes "0 \<le> x" and "x \<le> y"
  shows "fle (fl x) (fl y)"
proof (cases "x = 0")
  case True
  show ?thesis
  proof (cases "y = 0")
    case True
    then show ?thesis using \<open>x = 0\<close> by (simp add: fl_def)
  next
    case False
    then have "0 < y" using assms True by simp
    then show ?thesis using True nearest_nonneg [of y] by (simp add: fl_def)
  qed
next
  case False
  then have x: "0 < x" using assms by simp
  then have y: "0 < y" using assms by simp
  have "nearest x \<le> nearest y" by (rule nearest_mono [OF x assms(2)])
  then show ?thesis using x y by (auto simp: fl_def)
qed

lemma fle_trans: "fle a b \<Longrightarrow> fle b c \<Longrightarrow> fle a c"
  by (cases a; cases b; cases c) simp_all

lemma fadd_nonneg:
  assumes a: "is_binary32 a" "fle (Finite 0) a" and b: "is_binary32 b" "fle (Finite 0) b"
  shows "is_binary32 (fadd a b)" and "fle a (fadd a b)" and "fle b (fadd a b)"
proof -
  have "is_binary32 (fadd a b) \<and> fle a (fadd a b) \<and> fle b (fadd a b)"
  proof (cases a)
    case (Finite r)
    show ?thesis
    proof (cases b)
      case (Finite s)
      have r: "0 \<le> r" "fl r = Finite r" using a \<open>a = Finite r\<close> by (simp_all add: is_binary32_def)
      have s: "0 \<le> s" "fl s = Finite s" using b Finite by (simp_all add: is_binary32_def)
      have 1: "fle (fl r) (fl (r + s))" using r(1) s(1) by (intro fl_mono) simp_all
      have 2: "fle (fl s) (fl (r + s))" using r(1) s(1) by (intro fl_mono) simp_all
      have 3: "is_binary32 (fl (r + s))"
        by (cases "fl (r + s)") (simp_all add: is_binary32_def fl_idem)
      show ?thesis using 1 2 3 by (simp add: \<open>a = Finite r\<close> Finite r(2) s(2))
    qed (use a b Finite in \<open>simp_all add: is_binary32_def\<close>)
  qed (use a b in \<open>cases b; simp_all add: is_binary32_def\<close>)+
  then show "is_binary32 (fadd a b)" and "fle a (fadd a b)" and "fle b (fadd a b)" by simp_all
qed

lemma foldl_fadd_nonneg:
  assumes "is_binary32 a" "fle (Finite 0) a"
    and "\<forall>x\<in>set v. is_binary32 x \<and> fle (Finite 0) x"
  shows "is_binary32 (foldl fadd a v) \<and> fle a (foldl fadd a v)
       \<and> (\<forall>x\<in>set v. fle x (foldl fadd a v))"
  using assms
proof (induction v arbitrary: a)
  case Nil
  then show ?case by (cases a) simp_all
next
  case (Cons x v)
  have x: "is_binary32 x" "fle (Finite 0) x" using Cons.prems(3) by simp_all
  note s = fadd_nonneg [OF Cons.prems(1,2) x]
  have nn: "fle (Finite 0) (fadd a x)" by (rule fle_trans [OF Cons.prems(2) s(2)])
  have ih: "is_binary32 (foldl fadd (fadd a x) v) \<and> fle (fadd a x) (foldl fadd (fadd a x) v)
       \<and> (\<forall>y\<in>set v. fle y (foldl fadd (fadd a x) v))"
    by (rule Cons.IH [OF s(1) nn]) (use Cons.prems(3) in simp)
  show ?case using ih s(2,3) by (auto intro: fle_trans)
qed

lemma fl_zero: "fl 0 = Finite 0"
  by (simp add: fl_def)

lemma accumulate_nonneg:
  assumes "\<forall>x\<in>set v. is_binary32 x \<and> fle (Finite 0) x"
  shows "is_binary32 (accumulate v)" and "fle (Finite 0) (accumulate v)"
    and "\<forall>x\<in>set v. fle x (accumulate v)"
  using foldl_fadd_nonneg [of "Finite 0" v] assms
  by (simp_all add: accumulate_def is_binary32_def fl_zero)

text \<open>
  The value of \<open>fl\<close> and of a rounded square root from a mantissa and an exponent
  \<open>-k\<close>, by arithmetic on numerals.
\<close>

lemma powr_neg_nat: "(2::real) powr of_int (- int k) = 1 / 2 ^ k"
  by (simp add: powr_minus powr_realpow inverse_eq_divide)

lemma powr_neg_nat_24: "(2::real) powr of_int (- int k + 24) = 2 ^ 24 / 2 ^ k"
  by (simp add: powr_diff powr_realpow)

lemma powr_neg_nat_23: "(2::real) powr of_int (- int k + 23) = 2 ^ 23 / 2 ^ k"
  by (simp add: powr_diff powr_realpow)

lemma fl_finite:
  assumes x: "0 < x" and e: "ulp_exponent x \<le> 103"
  shows "fl x = Finite (nearest x)"
proof -
  have "real_of_int (round_even (x / ulp x)) \<le> of_int (2 ^ 24)"
    using nearest_bounds(1) [OF x] by (simp only: of_int_le_iff)
  then have "nearest x \<le> of_int (2 ^ 24) * ulp x"
    using x ulp_pos [of x] by (simp add: nearest_def mult_right_mono)
  also have "\<dots> = 2 powr of_int (ulp_exponent x + 24)" using x by (simp add: ulp_def powr_add)
  also have "\<dots> \<le> 2 powr of_int 127" by (rule powr_mono) (use e in simp_all)
  also have "\<dots> < 2 ^ 128" by simp
  finally show ?thesis using x by (simp add: fl_def)
qed

lemma fl_round:
  assumes x: "0 < x" and k: "k \<le> 149"
    and up: "x * 2 ^ k < 2 ^ 24"
    and lo: "k = 149 \<or> 2 ^ 23 \<le> x * 2 ^ k"
    and m: "\<bar>x * 2 ^ k - of_int m\<bar> < 1 / 2"
  shows "fl x = Finite (of_int m / 2 ^ k)"
proof -
  let ?e = "- int k"
  have e: "- 149 \<le> ?e" using k by simp
  have up': "x < 2 powr of_int (?e + 24)"
    using up by (simp only: powr_neg_nat_24) (simp add: field_simps)
  have lo': "?e = - 149 \<or> 2 powr of_int (?e + 23) \<le> x"
    using lo by (simp only: powr_neg_nat_23) (auto simp: field_simps)
  have m': "\<bar>x / 2 powr of_int ?e - of_int m\<bar> < 1 / 2"
    using m by (simp only: powr_neg_nat) simp
  have u: "ulp_exponent x = ?e" by (rule ulp_exponent_unique [OF x e up' lo'])
  have "nearest x = of_int m * 2 powr of_int ?e" by (rule nearest_eval [OF x e up' lo' m'])
  then have n: "nearest x = of_int m / 2 ^ k" by (simp only: powr_neg_nat) simp
  have "fl x = Finite (nearest x)" by (rule fl_finite [OF x]) (simp add: u)
  then show ?thesis by (simp only: n)
qed

lemma fl_tie:
  assumes x: "0 < x" and k: "k \<le> 149"
    and up: "x * 2 ^ k < 2 ^ 24"
    and lo: "k = 149 \<or> 2 ^ 23 \<le> x * 2 ^ k"
    and m: "x * 2 ^ k = of_int m + 1 / 2"
  shows "fl x = Finite (of_int (if even m then m else m + 1) / 2 ^ k)"
proof -
  let ?e = "- int k"
  have e: "- 149 \<le> ?e" using k by simp
  have up': "x < 2 powr of_int (?e + 24)"
    using up by (simp only: powr_neg_nat_24) (simp add: field_simps)
  have lo': "?e = - 149 \<or> 2 powr of_int (?e + 23) \<le> x"
    using lo by (simp only: powr_neg_nat_23) (auto simp: field_simps)
  have m': "x / 2 powr of_int ?e = of_int m + 1 / 2"
    using m by (simp only: powr_neg_nat) simp
  have u: "ulp_exponent x = ?e" by (rule ulp_exponent_unique [OF x e up' lo'])
  have "nearest x = of_int (if even m then m else m + 1) * 2 powr of_int ?e"
    by (rule nearest_tie [OF x e up' lo' m'])
  then have n: "nearest x = of_int (if even m then m else m + 1) / 2 ^ k"
    by (simp only: powr_neg_nat) simp
  have "fl x = Finite (nearest x)" by (rule fl_finite [OF x]) (simp add: u)
  then show ?thesis by (simp only: n)
qed


lemma foldl_replicate_Suc: "foldl f a (replicate (Suc n) x) = f (foldl f a (replicate n x)) x"
  by (induction n arbitrary: a) simp_all

lemma accumulate_replicate_Suc:
  "accumulate (replicate (Suc n) x) = fadd (accumulate (replicate n x)) x"
  unfolding accumulate_def by (rule foldl_replicate_Suc)

section \<open>The normalisation functions on binary32 values\<close>



lemma fl_one: "fl 1 = Finite 1"
  using fl_round [of 1 23 "2 ^ 23"] by simp

lemma fl_epsilon: "fl (8796093 / 8796093022208) = Finite (8796093 / 8796093022208)"
  using fl_round [of "8796093 / 8796093022208" 43 8796093] by simp


lemma epsilon_binary32: "is_binary32 epsilon" "fle (Finite 0) epsilon"
  by (simp_all add: epsilon_def is_binary32_def fl_epsilon)

lemma fl_unit:
  assumes "0 \<le> x" and "x \<le> 1"
  shows "fle (Finite 0) (fl x) \<and> fle (fl x) (Finite 1)"
  using fl_mono [of 0 x] fl_mono [of x 1] assms by (simp add: fl_zero fl_one)

lemma fdiv_unit:
  assumes r: "fle (Finite 0) (Finite r)" and le: "fle (Finite r) den" and d: "den \<noteq> Finite 0"
  shows "fle (Finite 0) (fdiv (Finite r) den) \<and> fle (fdiv (Finite r) den) (Finite 1)"
proof (cases den)
  case (Finite t)
  have "0 \<le> r" "r \<le> t" "t \<noteq> 0" using r le d Finite by simp_all
  then have "0 \<le> r / t" "r / t \<le> 1" by (simp_all add: divide_le_eq_1)
  then show ?thesis using fl_unit [of "r / t"] \<open>t \<noteq> 0\<close> by (simp add: Finite)
qed (use le in simp_all)

lemma accumulate_zeros: "accumulate (replicate n (Finite 0)) = Finite 0"
proof (induction n)
  case 0
  then show ?case by (simp add: accumulate_def)
next
  case (Suc n)
  then show ?case by (simp only: accumulate_replicate_Suc) (simp add: fl_zero)
qed

lemma L1norm_zeros: "L1norm (replicate n (Finite 0)) = replicate n (Finite 0)"
proof -
  have d: "fadd (accumulate (replicate n (Finite 0))) epsilon = epsilon"
    by (simp add: accumulate_zeros epsilon_def fl_epsilon)
  show ?thesis
    unfolding L1norm_def Let_def d by (simp add: epsilon_def fl_zero)
qed

text \<open>
  On non-negative finite values the divisor of \<open>L1norm\<close> is at least \<open>epsilon\<close> and at
  least every element, and the quotients lie between 0 and 1.
\<close>

lemma L1norm_nonneg:
  assumes v: "\<forall>x\<in>set v. is_binary32 x \<and> is_finite x \<and> fle (Finite 0) x"
  shows "fle epsilon (fadd (accumulate v) epsilon)"
    and "L1norm v = map (\<lambda>nom. fdiv nom (fadd (accumulate v) epsilon)) v"
    and "\<forall>y\<in>set (L1norm v). fle (Finite 0) y \<and> fle y (Finite 1)"
proof -
  let ?den = "fadd (accumulate v) epsilon"
  have v': "\<forall>x\<in>set v. is_binary32 x \<and> fle (Finite 0) x" using v by simp
  note a = accumulate_nonneg [OF v']
  note d = fadd_nonneg [OF a(1,2) epsilon_binary32]
  show e: "fle epsilon ?den" by (rule d(3))
  have nz: "?den \<noteq> Finite 0" using e by (auto simp: epsilon_def)
  show eq: "L1norm v = map (\<lambda>nom. fdiv nom ?den) v" using nz by (simp add: L1norm_def Let_def)
  show "\<forall>y\<in>set (L1norm v). fle (Finite 0) y \<and> fle y (Finite 1)"
  proof
    fix y assume "y \<in> set (L1norm v)"
    then obtain x where x: "x \<in> set v" and y: "y = fdiv x ?den" by (auto simp: eq)
    obtain r where r: "x = Finite r" using v x by (cases x) (auto simp: is_finite_def)
    have "fle x ?den" using a(3) x d(2) by (blast intro: fle_trans)
    then show "fle (Finite 0) y \<and> fle y (Finite 1)"
      unfolding y r by (intro fdiv_unit nz) (use v x r in auto)
  qed
qed














lemma fl_nearest_epsilon: "fl (1 / 1000000) = epsilon"
  using fl_round [of "1 / 1000000" 43 8796093] by (simp add: epsilon_def)



section \<open>The normalisation functions on examples\<close>


lemma fl_of_nat:
  assumes n: "n < 2 ^ 24"
  shows "fl (of_nat n) = Finite (of_nat n)"
proof (cases "n = 0")
  case True
  then show ?thesis by (simp add: fl_zero)
next
  case False
  let ?x = "real n"
  have p: "0 < ?x" using False by simp
  have lt: "?x < 2 ^ 24" using n by (simp flip: of_nat_less_iff)
  let ?e = "ulp_exponent ?x"
  have e0: "?e \<le> 0"
  proof (rule ccontr)
    assume "\<not> ?e \<le> 0"
    then have e1: "1 \<le> ?e" by simp
    then have "2 powr of_int (?e + 23) \<le> ?x" by (intro ulp_exponent_lower [OF p]) simp
    moreover have "(2::real) powr of_int 24 \<le> 2 powr of_int (?e + 23)"
      by (rule powr_mono) (use e1 in simp_all)
    ultimately show False using lt by simp
  qed
  define k where "k = nat (- ?e)"
  have ek: "?e = - int k" using e0 by (simp add: k_def)
  have u: "ulp ?x = 1 / 2 ^ k" using p by (simp add: ulp_def ek powr_neg_nat del: of_int_minus)
  have "?x / ulp ?x = of_int (int (n * 2 ^ k))" by (simp add: u)
  then have "round_even (?x / ulp ?x) = int (n * 2 ^ k)" by (simp only: round_even_of_int)
  then have "nearest ?x = ?x" using p by (simp add: nearest_def u)
  moreover have "fl ?x = Finite (nearest ?x)" by (rule fl_finite [OF p]) (use e0 in simp)
  ultimately show ?thesis by simp
qed


text \<open>
  \<open>L1norm\<close> on \<open>[epsilon]\<close>, on \<open>[3 * 2^-24, 1]\<close> and on \<open>[3, 1]\<close>: the roundings
  that occur, and the results.
\<close>

lemma L1norm_examples_fl:
  "fl (8796093 / 8796093022208) = Finite (8796093 / 8796093022208)"
    "fl (8796093 / 4398046511104) = Finite (8796093 / 4398046511104)"
    "fl (1 / 2) = Finite (1 / 2)"
    "fl (3 / 16777216) = Finite (3 / 16777216)"
    "fl (16777219 / 16777216) = Finite (4194305 / 4194304)"
    "fl (8796103915453 / 8796093022208) = Finite (4194309 / 4194304)"
    "fl (1 / 5592412) = Finite (12582897 / 70368744177664)"
    "fl (4194304 / 4194309) = Finite (4194299 / 4194304)"
    "fl (3) = Finite (3)"
    "fl (4) = Finite (4)"
    "fl (35184380884925 / 8796093022208) = Finite (4194305 / 1048576)"
    "fl (3145728 / 4194305) = Finite (12582909 / 16777216)"
    "fl (1048576 / 4194305) = Finite (4194303 / 16777216)"
proof -
  show "fl (8796093 / 8796093022208) = Finite (8796093 / 8796093022208)"
    using fl_round [of "8796093 / 8796093022208" 43 8796093] by simp
  show "fl (8796093 / 4398046511104) = Finite (8796093 / 4398046511104)"
    using fl_round [of "8796093 / 4398046511104" 42 8796093] by simp
  show "fl (1 / 2) = Finite (1 / 2)"
    using fl_round [of "1 / 2" 24 8388608] by simp
  show "fl (3 / 16777216) = Finite (3 / 16777216)"
    using fl_round [of "3 / 16777216" 46 12582912] by simp
  show "fl (16777219 / 16777216) = Finite (4194305 / 4194304)"
    using fl_tie [of "16777219 / 16777216" 23 8388609] by simp
  show "fl (8796103915453 / 8796093022208) = Finite (4194309 / 4194304)"
    using fl_round [of "8796103915453 / 8796093022208" 23 8388618] by simp
  show "fl (1 / 5592412) = Finite (12582897 / 70368744177664)"
    using fl_round [of "1 / 5592412" 46 12582897] by simp
  show "fl (4194304 / 4194309) = Finite (4194299 / 4194304)"
    using fl_round [of "4194304 / 4194309" 24 16777196] by simp
  show "fl (3) = Finite (3)"
    using fl_round [of "3" 22 12582912] by simp
  show "fl (4) = Finite (4)"
    using fl_round [of "4" 21 8388608] by simp
  show "fl (35184380884925 / 8796093022208) = Finite (4194305 / 1048576)"
    using fl_round [of "35184380884925 / 8796093022208" 21 8388610] by simp
  show "fl (3145728 / 4194305) = Finite (12582909 / 16777216)"
    using fl_round [of "3145728 / 4194305" 24 12582909] by simp
  show "fl (1048576 / 4194305) = Finite (4194303 / 16777216)"
    using fl_round [of "1048576 / 4194305" 26 16777212] by simp
qed

lemma L1norm_epsilon:
  "L1norm [Finite (8796093 / 8796093022208)] =
     [Finite (1 / 2)]"
  by (simp add: L1norm_def accumulate_def epsilon_def L1norm_examples_fl)

lemma L1norm_rounding:
  "L1norm [Finite (3 / 16777216), Finite (1)] =
     [Finite (12582897 / 70368744177664), Finite (4194299 / 4194304)]"
  by (simp add: L1norm_def accumulate_def epsilon_def L1norm_examples_fl)

lemma L1norm_3_1:
  "L1norm [Finite (3), Finite (1)] =
     [Finite (12582909 / 16777216), Finite (4194303 / 16777216)]"
  by (simp add: L1norm_def accumulate_def epsilon_def L1norm_examples_fl)











section \<open>The claims\<close>

text \<open>
  Claim C1 (the code departs from it). The claim takes the bin of a pixel to be the floor
  of its effective orientation over the real quotient \<open>gradient_range / bin_count\<close>. The
  code divides by \<open>_bin_width\<close>, the \<open>size_t\<close> quotient. With 7 bins in unsigned mode
  \<open>_bin_width\<close> is 25: a pixel of orientation 100 votes its magnitude in bin 4, where the
  claim's bin is 3, and a pixel of orientation 179 indexes bin 7 of a 7-bin histogram, so
  that \<open>at\<close> throws and \<open>process\<close> fails, where the claim's bin is 6.
\<close>

theorem process_cell_truncated_bin_width:
  "HOG 2 1 1 7 GRADIENT_UNSIGNED none = Inr (example_hog 2 1 1 7)
   \<and> process_cell (example_hog 2 1 1 7) (example_cell 1) (example_cell 100)
       = Inr [0, 0, 0, 0, 1, 0, 0]
   \<and> voting_bin GRADIENT_UNSIGNED 7 100 = 3
   \<and> process_cell (example_hog 2 1 1 7) (example_cell 1) (example_cell 179) = Inl OutOfRange
   \<and> voting_bin GRADIENT_UNSIGNED 7 179 = 6
   \<and> fst (process (example_image 2 2 179) (example_hog 2 1 1 7)) = Some OutOfRange"
  by (simp add: ctor_defs process_defs example_cell_def list_eval voting_bin_def
      effective_orientation_def)

text \<open>
  Claim C2, as amended. For a constructed object whose cell step \<open>stride / cellsize\<close> is
  positive and at most \<open>2^64 - 2^31\<close>, after a successful \<open>process\<close> and for every valid
  window, \<open>retrieve\<close> returns, leaves the object as it is, and its vector is the
  descriptor: the concatenation, over the block positions row-major (y outer, x inner)
  from the window's first cell in steps of \<open>stride / cellsize\<close> cells up to
  \<open>start + extent - cells_per_block\<close>, of the normalised row-major concatenations of the
  blocks' cell histograms.
\<close>

theorem retrieve_descriptor:
  assumes "valid_config h"
    and "stride_unit h \<noteq> 0" and "unat (stride_unit h) + 2 ^ 31 \<le> 2 ^ 64"
    and "fst (process img h) = None"
    and "valid_window window (snd (process img h))"
  shows "retrieve window (snd (process img h)) =
           Some (Inr (descriptor (snd (process img h)) window), snd (process img h))"
  using assms by (rule retrieve_descriptor_aux)

text \<open>
  The theorem on the 2 by 2 image: one block of four cells.
\<close>

theorem retrieve_descriptor_witness:
  "valid_config (example_hog 2 1 1 9)
   \<and> fst (process (example_image 2 2 100) (example_hog 2 1 1 9)) = None
   \<and> valid_window (example_window 0 0 2 2)
         (snd (process (example_image 2 2 100) (example_hog 2 1 1 9)))
   \<and> retrieve (example_window 0 0 2 2)
         (snd (process (example_image 2 2 100) (example_hog 2 1 1 9)))
       = Some (Inr (descriptor (snd (process (example_image 2 2 100) (example_hog 2 1 1 9)))
                      (example_window 0 0 2 2)),
               snd (process (example_image 2 2 100) (example_hog 2 1 1 9)))
   \<and> descriptor (snd (process (example_image 2 2 100) (example_hog 2 1 1 9)))
         (example_window 0 0 2 2)
       = [0,0,0,0,0,1,0,0,0, 0,0,0,0,0,1,0,0,0, 0,0,0,0,0,1,0,0,0, 0,0,0,0,0,1,0,0,0]"
proof -
  have "stride_unit (example_hog 2 1 1 9) \<noteq> 0"
    and "unat (stride_unit (example_hog 2 1 1 9)) + 2 ^ 31 \<le> 2 ^ 64"
    by (simp_all add: small_hog_fields)
  then show ?thesis
    using retrieve_descriptor [OF small_config _ _ small_process small_window]
      small_config small_process small_window small_desc
    by simp
qed

text \<open>
  Claim C2 as stated fails. With stride \<open>2^64 - 1\<close> the x loop visits the block at cell 1
  and then, wrapped around, the block at cell 0: \<open>retrieve\<close> returns two blocks where
  the descriptor has one. With stride 0 \<open>retrieve\<close> returns nothing.
\<close>

theorem retrieve_descriptor_counterexample:
  "valid_config (example_hog 2 1 (- 1) 9)
   \<and> fst (process (example_image 2 3 100) (example_hog 2 1 (- 1) 9)) = None
   \<and> valid_window (example_window 1 0 2 2)
         (snd (process (example_image 2 3 100) (example_hog 2 1 (- 1) 9)))
   \<and> retrieve (example_window 1 0 2 2)
         (snd (process (example_image 2 3 100) (example_hog 2 1 (- 1) 9)))
       \<noteq> Some (Inr (descriptor (snd (process (example_image 2 3 100) (example_hog 2 1 (- 1) 9)))
                      (example_window 1 0 2 2)),
               snd (process (example_image 2 3 100) (example_hog 2 1 (- 1) 9)))
   \<and> valid_config (example_hog 2 1 0 9)
   \<and> fst (process (example_image 2 2 100) (example_hog 2 1 0 9)) = None
   \<and> valid_window (example_window 0 0 2 2)
         (snd (process (example_image 2 2 100) (example_hog 2 1 0 9)))
   \<and> retrieve (example_window 0 0 2 2)
         (snd (process (example_image 2 2 100) (example_hog 2 1 0 9))) = None"
  using HOG_valid_config [OF wrap_hog] wrap_process wrap_window
    HOG_valid_config [OF zero_hog] zero_process zero_window zero_retrieve
  by (simp add: wrap_retrieve wrap_descriptor)

text \<open>
  Claim C3, as amended. For a constructed object whose cell step \<open>stride / cellsize\<close> is
  positive and at most \<open>2^64 - 2^31\<close> and whose normalisation function preserves the
  length of its argument, after a successful \<open>process\<close> and for every valid window,
  \<open>retrieve\<close> returns a vector of length
  \<open>bin_count * cells_per_block^2 * n_blocks_y * n_blocks_x\<close>, where the number of blocks
  of an axis is \<open>(extent_in_cells - cells_per_block) div (stride / cellsize) + 1\<close>. With
  blocksize 32, cellsize 16, stride 16, 9 bins, unsigned mode and a window 256 high and
  128 wide the length is \<open>9 * 4 * 15 * 7\<close>.
\<close>

theorem retrieve_length:
  assumes "valid_config h"
    and "stride_unit h \<noteq> 0" and "unat (stride_unit h) + 2 ^ 31 \<le> 2 ^ 64"
    and "\<forall>v. length (block_norm h v) = length v"
    and "fst (process img h) = None"
    and "valid_window window (snd (process img h))"
  shows "\<exists>v. retrieve window (snd (process img h)) = Some (Inr v, snd (process img h))
           \<and> length v =
               unat (binning h) * (unat (blocksize h) div unat (cellsize h)) ^ 2
               * n_blocks (cells h (rect_height window))
                   (unat (blocksize h) div unat (cellsize h))
                   (unat (stride h) div unat (cellsize h))
               * n_blocks (cells h (rect_width window))
                   (unat (blocksize h) div unat (cellsize h))
                   (unat (stride h) div unat (cellsize h))
           \<and> (blocksize h = 32 \<and> cellsize h = 16 \<and> stride h = 16 \<and> binning h = 9
                \<and> grad_type h = GRADIENT_UNSIGNED
                \<and> rect_height window = 256 \<and> rect_width window = 128
                \<longrightarrow> length v = 9 * 4 * 15 * 7)"
proof -
  let ?v = "descriptor (snd (process img h)) window"
  have r: "retrieve window (snd (process img h)) = Some (Inr ?v, snd (process img h))"
    using assms(1,2,3,5,6) by (rule retrieve_descriptor_aux)
  have l: "length ?v =
               unat (binning h) * (unat (blocksize h) div unat (cellsize h)) ^ 2
               * n_blocks (cells h (rect_height window))
                   (unat (blocksize h) div unat (cellsize h))
                   (unat (stride h) div unat (cellsize h))
               * n_blocks (cells h (rect_width window))
                   (unat (blocksize h) div unat (cellsize h))
                   (unat (stride h) div unat (cellsize h))"
    using assms(1,2,5,6,4) by (rule descriptor_length)
  have i: "blocksize h = 32 \<and> cellsize h = 16 \<and> stride h = 16 \<and> binning h = 9
                \<and> grad_type h = GRADIENT_UNSIGNED
                \<and> rect_height window = 256 \<and> rect_width window = 128
                \<longrightarrow> length ?v = 9 * 4 * 15 * 7"
    by (simp add: l cells_def n_blocks_def)
  show ?thesis using r l i by blast
qed

text \<open>
  The theorem on the 2 by 2 image: \<open>9 * 2^2 * 1 * 1\<close> values.
\<close>

theorem retrieve_length_witness:
  "valid_config (example_hog 2 1 1 9)
   \<and> fst (process (example_image 2 2 100) (example_hog 2 1 1 9)) = None
   \<and> valid_window (example_window 0 0 2 2)
         (snd (process (example_image 2 2 100) (example_hog 2 1 1 9)))
   \<and> result_length (retrieve (example_window 0 0 2 2)
         (snd (process (example_image 2 2 100) (example_hog 2 1 1 9)))) = Some (9 * 2 ^ 2 * 1 * 1)"
proof -
  have "stride_unit (example_hog 2 1 1 9) \<noteq> 0"
    and "unat (stride_unit (example_hog 2 1 1 9)) + 2 ^ 31 \<le> 2 ^ 64"
    and "\<forall>v. length (block_norm (example_hog 2 1 1 9) v) = length v"
    by (simp_all add: small_hog_fields none_def)
  from retrieve_length [OF small_config this small_process small_window]
  show ?thesis
    using small_config small_process small_window
    by (auto simp: result_length_def small_hog_fields cells_def n_blocks_def
        example_window_fields)
qed

text \<open>
  Claim C3 as stated fails on configurations that \<open>check_ctor_params\<close> accepts. With
  stride 0 \<open>retrieve\<close> returns no vector. With stride \<open>2^64 - 1\<close> it returns 72 values
  where the closed form gives 36.
\<close>

theorem retrieve_length_counterexample:
  "valid_config (example_hog 2 1 0 9)
   \<and> fst (process (example_image 2 2 100) (example_hog 2 1 0 9)) = None
   \<and> valid_window (example_window 0 0 2 2)
         (snd (process (example_image 2 2 100) (example_hog 2 1 0 9)))
   \<and> result_length (retrieve (example_window 0 0 2 2)
         (snd (process (example_image 2 2 100) (example_hog 2 1 0 9)))) = None
   \<and> valid_config (example_hog 2 1 (- 1) 9)
   \<and> fst (process (example_image 2 3 100) (example_hog 2 1 (- 1) 9)) = None
   \<and> valid_window (example_window 1 0 2 2)
         (snd (process (example_image 2 3 100) (example_hog 2 1 (- 1) 9)))
   \<and> result_length (retrieve (example_window 1 0 2 2)
         (snd (process (example_image 2 3 100) (example_hog 2 1 (- 1) 9)))) = Some 72
   \<and> unat (binning (example_hog 2 1 (- 1) 9))
       * (unat (blocksize (example_hog 2 1 (- 1) 9))
            div unat (cellsize (example_hog 2 1 (- 1) 9))) ^ 2
       * n_blocks (cells (example_hog 2 1 (- 1) 9) (rect_height (example_window 1 0 2 2)))
           (unat (blocksize (example_hog 2 1 (- 1) 9))
              div unat (cellsize (example_hog 2 1 (- 1) 9)))
           (unat (stride (example_hog 2 1 (- 1) 9))
              div unat (cellsize (example_hog 2 1 (- 1) 9)))
       * n_blocks (cells (example_hog 2 1 (- 1) 9) (rect_width (example_window 1 0 2 2)))
           (unat (blocksize (example_hog 2 1 (- 1) 9))
              div unat (cellsize (example_hog 2 1 (- 1) 9)))
           (unat (stride (example_hog 2 1 (- 1) 9))
              div unat (cellsize (example_hog 2 1 (- 1) 9)))
       = 36"
  using HOG_valid_config [OF wrap_hog] wrap_process wrap_window
    HOG_valid_config [OF zero_hog] zero_process zero_window
  by (simp add: result_length_def wrap_retrieve zero_retrieve wrap_hog_fields cells_def
      n_blocks_def example_window_fields)

lemma process_invalid:
  "\<not> img_data img \<or> scast (img_rows img) < blocksize h \<or> scast (img_cols img) < blocksize h
     \<Longrightarrow> process img h = (Some InvalidInput, h)"
  by (auto simp: process_def)

lemma process_discards:
  "img_data img \<and> \<not> scast (img_rows img) < blocksize h
     \<and> \<not> scast (img_cols img) < blocksize h \<and> cellsize h \<noteq> 0
   \<Longrightarrow> process img h =
         process img (h\<lparr>n_cells_y := 0, n_cells_x := 0, mag := empty_Mat, ori := empty_Mat,
                        cell_hists := []\<rparr>)"
  by (simp add: process_def clear_internals_def magnitude_and_orientation_def Let_def)

text \<open>
  Claim C4, as amended. \<open>process\<close> validates the image before it clears anything: a call
  that fails validation (no data, or fewer rows or columns than the block size) returns
  the object unchanged, so a prior result stays. A call that passes validation discards the
  prior maps and grid: its outcome is that of the same call on an object whose maps, grid
  and grid dimensions are those of a new object.
\<close>

theorem process_validates_first:
  "(\<not> img_data img \<or> scast (img_rows img) < blocksize h \<or> scast (img_cols img) < blocksize h
      \<longrightarrow> process img h = (Some InvalidInput, h))
   \<and> (img_data img \<and> \<not> scast (img_rows img) < blocksize h
        \<and> \<not> scast (img_cols img) < blocksize h \<and> cellsize h \<noteq> 0
      \<longrightarrow> process img h =
            process img (h\<lparr>n_cells_y := 0, n_cells_x := 0, mag := empty_Mat, ori := empty_Mat,
                           cell_hists := []\<rparr>))"
  using process_invalid [of img h] process_discards [of img h] by blast

text \<open>
  The theorem on a 1 by 1 image, which is smaller than the block size 2.
\<close>

theorem process_validates_first_witness:
  "process (example_image 1 1 100) (example_hog 2 1 1 9)
     = (Some InvalidInput, example_hog 2 1 1 9)"
  using process_validates_first [of "example_image 1 1 100" "example_hog 2 1 1 9"]
  by (simp add: example_image_fields small_hog_fields)

text \<open>
  Claim C4 as stated fails: after a successful \<open>process\<close>, a \<open>process\<close> of an image that
  is too small fails and leaves the object as it was; the grid is still there and
  \<open>retrieve\<close> still returns the descriptor of the first image.
\<close>

theorem process_clears_counterexample:
  "fst (process (example_image 2 2 100) (example_hog 2 1 1 9)) = None
   \<and> process (example_image 1 1 100) (snd (process (example_image 2 2 100) (example_hog 2 1 1 9)))
       = (Some InvalidInput, snd (process (example_image 2 2 100) (example_hog 2 1 1 9)))
   \<and> cell_hists (snd (process (example_image 1 1 100)
         (snd (process (example_image 2 2 100) (example_hog 2 1 1 9)))))
       = [[[0,0,0,0,0,1,0,0,0],[0,0,0,0,0,1,0,0,0]],[[0,0,0,0,0,1,0,0,0],[0,0,0,0,0,1,0,0,0]]]
   \<and> retrieve (example_window 0 0 2 2) (snd (process (example_image 1 1 100)
         (snd (process (example_image 2 2 100) (example_hog 2 1 1 9)))))
       = Some (Inr [0,0,0,0,0,1,0,0,0, 0,0,0,0,0,1,0,0,0, 0,0,0,0,0,1,0,0,0, 0,0,0,0,0,1,0,0,0],
               snd (process (example_image 2 2 100) (example_hog 2 1 1 9)))"
proof -
  have "process (example_image 1 1 100) (snd (process (example_image 2 2 100) (example_hog 2 1 1 9)))
       = (Some InvalidInput, snd (process (example_image 2 2 100) (example_hog 2 1 1 9)))"
    by (rule process_invalid) (simp add: example_image_fields small_fields)
  then show ?thesis using small_process small_grid small_retrieve by simp
qed

text \<open>
  Claim C5, as amended. For a window of non-negative width and height on gradient maps
  of non-negative size, \<open>retrieve\<close> fails with \<open>WindowTooSmall\<close> exactly when the height
  or the width is smaller than the block size; it fails with \<open>WindowOutOfBounds\<close> exactly
  when the window is not too small and \<open>x + width > map_width\<close> or
  \<open>y + height > map_height\<close>; and it never fails with \<open>NotProcessed\<close>. On maps of
  width 0, as those of an object that has not processed an image, every window of
  non-negative origin that is not too small fails with \<open>WindowOutOfBounds\<close>.
\<close>

theorem retrieve_failures:
  assumes "0 \<le> sint (rect_width window)" and "0 \<le> sint (rect_height window)"
    and "0 \<le> sint (mat_cols (mag h))" and "0 \<le> sint (mat_rows (mag h))"
  shows "(retrieve window h = Some (Inl WindowTooSmall, h) \<longleftrightarrow>
            sint (rect_height window) < uint (blocksize h)
            \<or> sint (rect_width window) < uint (blocksize h))
       \<and> (retrieve window h = Some (Inl WindowOutOfBounds, h) \<longleftrightarrow>
            \<not> (sint (rect_height window) < uint (blocksize h)
               \<or> sint (rect_width window) < uint (blocksize h))
            \<and> (sint (mat_cols (mag h)) < sint (rect_x window) + sint (rect_width window)
               \<or> sint (mat_rows (mag h)) < sint (rect_y window) + sint (rect_height window)))
       \<and> retrieve window h \<noteq> Some (Inl NotProcessed, h)
       \<and> (mat_cols (mag h) = 0 \<and> 0 \<le> sint (rect_x window) \<and> 0 < uint (blocksize h)
            \<and> \<not> (sint (rect_height window) < uint (blocksize h)
                   \<or> sint (rect_width window) < uint (blocksize h))
          \<longrightarrow> retrieve window h = Some (Inl WindowOutOfBounds, h))"
proof -
  let ?small = "scast (rect_height window) < blocksize h \<or> scast (rect_width window) < blocksize h"
  let ?out = "mat_cols (mag h) - rect_width window <s rect_x window
            \<or> mat_rows (mag h) - rect_height window <s rect_y window"
  have small: "?small \<longleftrightarrow> sint (rect_height window) < uint (blocksize h)
            \<or> sint (rect_width window) < uint (blocksize h)"
    by (simp add: scast_less_iff assms)
  have out: "?out \<longleftrightarrow> sint (mat_cols (mag h)) < sint (rect_x window) + sint (rect_width window)
               \<or> sint (mat_rows (mag h)) < sint (rect_y window) + sint (rect_height window)"
    using assms by (auto simp: word_sless_alt sint_minus_nonneg)
  have r1: "?small \<Longrightarrow> retrieve window h = Some (Inl WindowTooSmall, h)"
    by (simp add: retrieve_def)
  have r2: "\<not> ?small \<Longrightarrow> ?out \<Longrightarrow> retrieve window h = Some (Inl WindowOutOfBounds, h)"
    by (simp add: retrieve_def)
  have r3: "\<not> ?small \<Longrightarrow> \<not> ?out \<Longrightarrow> retrieve window h = Some (Inl e, h)
              \<Longrightarrow> e = DivisionByZero \<or> e = OutOfBoundsAccess" for e
    using retrieve_error_after_checks [of window h e h] by blast
  have a: "retrieve window h = Some (Inl WindowTooSmall, h) \<longleftrightarrow> ?small"
    using r1 r2 r3 [of WindowTooSmall] by (cases ?small; cases ?out) auto
  have b: "retrieve window h = Some (Inl WindowOutOfBounds, h) \<longleftrightarrow> \<not> ?small \<and> ?out"
    using r1 r2 r3 [of WindowOutOfBounds] by (cases ?small; cases ?out) auto
  have c: "retrieve window h \<noteq> Some (Inl NotProcessed, h)"
    using r1 r2 r3 [of NotProcessed] by (cases ?small; cases ?out) auto
  have d: "mat_cols (mag h) = 0 \<and> 0 \<le> sint (rect_x window) \<and> 0 < uint (blocksize h)
            \<and> \<not> (sint (rect_height window) < uint (blocksize h)
                   \<or> sint (rect_width window) < uint (blocksize h))
          \<longrightarrow> retrieve window h = Some (Inl WindowOutOfBounds, h)"
  proof
    assume u: "mat_cols (mag h) = 0 \<and> 0 \<le> sint (rect_x window) \<and> 0 < uint (blocksize h)
            \<and> \<not> (sint (rect_height window) < uint (blocksize h)
                   \<or> sint (rect_width window) < uint (blocksize h))"
    then have "sint (mat_cols (mag h)) < sint (rect_x window) + sint (rect_width window)"
      by simp
    then show "retrieve window h = Some (Inl WindowOutOfBounds, h)"
      using u b small out by blast
  qed
  show ?thesis using a b c d small out by simp
qed

text \<open>
  The theorem on a 1 by 1 window, and on a 2 by 2 window at (1, 1) of a 2 by 2 image.
\<close>

theorem retrieve_failures_witness:
  "retrieve (example_window 0 0 1 1) (example_hog 2 1 1 9)
     = Some (Inl WindowTooSmall, example_hog 2 1 1 9)
   \<and> retrieve (example_window 1 1 2 2)
         (snd (process (example_image 2 2 100) (example_hog 2 1 1 9)))
       = Some (Inl WindowOutOfBounds, snd (process (example_image 2 2 100) (example_hog 2 1 1 9)))"
  using retrieve_failures [of "example_window 0 0 1 1" "example_hog 2 1 1 9"]
    retrieve_failures [of "example_window 1 1 2 2"
      "snd (process (example_image 2 2 100) (example_hog 2 1 1 9))"]
  by (simp add: example_window_fields small_hog_fields small_fields example_image_fields
      empty_Mat_def word_sless_alt)

text \<open>
  Claim C5 as stated fails: no statement of \<open>retrieve\<close> looks at whether \<open>process\<close> has
  run. On a new object, whose maps are 0 by 0 and whose grid is empty, the window
  \<open>(0, 0, 2, 2)\<close> fails with \<open>WindowOutOfBounds\<close>, and the window \<open>(-2, -2, 2, 2)\<close>
  passes both checks and returns the empty vector with no error.
\<close>

theorem retrieve_unprocessed_counterexample:
  "mag (example_hog 2 1 1 9) = empty_Mat \<and> cell_hists (example_hog 2 1 1 9) = []
   \<and> retrieve (example_window 0 0 2 2) (example_hog 2 1 1 9)
       = Some (Inl WindowOutOfBounds, example_hog 2 1 1 9)
   \<and> retrieve (example_window (- 2) (- 2) 2 2) (example_hog 2 1 1 9)
       = Some (Inr [], example_hog 2 1 1 9)"
  by (simp add: retrieve_eval small_hog_fields empty_Mat_def word_order.extremum_unique
      word_sless_alt)

text \<open>
  Claim C6 (the code departs from it). The constructors initialise
  \<open>_n_cells_per_block_y = _blocksize/_cellsize\<close>, \<open>_stride_unit = _stride/_cellsize\<close> and
  \<open>_bin_width(_grad_type / _binning)\<close> before their body calls \<open>check_ctor_params\<close>. With
  a cell size of 0, or 0 bins, the construction divides by zero and never reaches the
  check that would throw; \<open>check_ctor_params\<close> on the same arguments does report the
  invalid configuration. The one-argument constructor with block size 1 sets the cell
  size to \<open>1 / 2 = 0\<close> and divides by it.
\<close>

theorem ctor_division_before_check:
  "HOG 4 0 4 9 GRADIENT_UNSIGNED block_norm' = Inl DivisionByZero
   \<and> check_ctor_params 4 0 4 9 GRADIENT_UNSIGNED = Inl ConfigInvalid
   \<and> HOG 4 2 2 0 GRADIENT_UNSIGNED block_norm' = Inl DivisionByZero
   \<and> check_ctor_params 4 2 2 0 GRADIENT_UNSIGNED = Inl ConfigInvalid
   \<and> HOG1 1 block_norm' = Inl DivisionByZero"
  by (simp add: HOG_def HOG1_def check_ctor_params_def GRADIENT_UNSIGNED_def GRADIENT_SIGNED_def)

text \<open>
  Where the initialisers do not divide by zero, construction fails with
  \<open>ConfigInvalid\<close> exactly when a constraint of \<open>check_ctor_params\<close> is violated, and
  succeeds otherwise.
\<close>

lemma HOG_checked:
  assumes "c \<noteq> 0" "n \<noteq> 0"
  shows "(HOG b c s n g f = Inl ConfigInvalid \<longleftrightarrow>
     (b < 2 \<or> c < 1 \<or> n < 2 \<or> (g \<noteq> GRADIENT_UNSIGNED \<and> g \<noteq> GRADIENT_SIGNED)
      \<or> b mod c \<noteq> 0 \<or> s mod c \<noteq> 0))
     \<and> (HOG b c s n g f \<noteq> Inl ConfigInvalid \<longrightarrow> (\<exists>h. HOG b c s n g f = Inr h))"
  using assms by (auto simp: HOG_def Let_def check_ctor_params_def mod_eq_0_iff_dvd)

text \<open>
  Claim C7, as amended. \<open>L1norm\<close> divides every element of its input by the sum of
  the elements plus \<open>epsilon\<close>, the sum, the addition and the divisions in binary32 and
  \<open>epsilon\<close> the binary32 value nearest to \<open>1e-6\<close>. For every input of non-negative
  finite values the divisor is at least \<open>epsilon\<close> (it may be the positive infinity), so
  that no division by zero occurs, and every output element lies between 0 and 1. The
  all-zero input is returned as it is. Nothing is stated of the sum of the output.
\<close>

theorem L1norm_binary32:
  assumes "\<forall>x\<in>set v. is_binary32 x \<and> is_finite x \<and> fle (Finite 0) x"
  shows "fl (1 / 1000000) = epsilon
       \<and> L1norm v = map (\<lambda>nom. fdiv nom (fadd (accumulate v) epsilon)) v
       \<and> fle epsilon (fadd (accumulate v) epsilon)
       \<and> (\<forall>y\<in>set (L1norm v). fle (Finite 0) y \<and> fle y (Finite 1))
       \<and> ((\<forall>x\<in>set v. x = Finite 0) \<longrightarrow> L1norm v = v)"
proof -
  note n = L1norm_nonneg [OF assms]
  have "L1norm v = v" if z: "\<forall>x\<in>set v. x = Finite 0"
  proof -
    have "v = replicate (length v) (Finite 0)" using z by (simp add: replicate_length_same)
    then show ?thesis using L1norm_zeros [of "length v"] by simp
  qed
  then show ?thesis using n fl_nearest_epsilon by blast
qed

text \<open>
  The theorem at the histogram \<open>[3, 1]\<close>: the divisor is \<open>4 + 2^-20\<close>, and the output
  is \<open>[12582909 * 2^-24, 4194303 * 2^-24]\<close>.
\<close>

theorem L1norm_binary32_witness:
  "L1norm [Finite 3, Finite 1] = [Finite (12582909 / 16777216), Finite (4194303 / 16777216)]
   \<and> fle epsilon (fadd (accumulate [Finite 3, Finite 1]) epsilon)
   \<and> list_all (\<lambda>y. fle (Finite 0) y \<and> fle y (Finite 1)) (L1norm [Finite 3, Finite 1])"
proof -
  have "fl 3 = Finite 3" "fl 1 = Finite 1"
    using fl_of_nat [of 3] fl_of_nat [of 1] by simp_all
  then have "\<forall>x\<in>set [Finite 3, Finite 1]. is_binary32 x \<and> is_finite x \<and> fle (Finite 0) x"
    by (simp add: is_binary32_def is_finite_def)
  note t = L1norm_binary32 [OF this]
  have a: "fle epsilon (fadd (accumulate [Finite 3, Finite 1]) epsilon)" using t by blast
  have "\<forall>y\<in>set (L1norm [Finite 3, Finite 1]). fle (Finite 0) y \<and> fle y (Finite 1)"
    using t by blast
  then have b: "list_all (\<lambda>y. fle (Finite 0) y \<and> fle y (Finite 1)) (L1norm [Finite 3, Finite 1])"
    by (simp only: list_all_iff)
  show ?thesis using L1norm_3_1 a b by blast
qed

text \<open>
  Claim C7 as stated fails. The one-element histogram \<open>[epsilon]\<close> is not all-zero, and
  its output is \<open>[1/2]\<close>. The histogram \<open>[3 * 2^-24, 1]\<close> has a sum above 1, and the sum
  of its output is \<open>1 - 71303183 * 2^-46\<close>, further than \<open>1e-6\<close> from 1: the rounded
  divisor is \<open>1 + 10 * 2^-23\<close>.
\<close>

theorem L1norm_counterexample:
  "is_binary32 epsilon \<and> is_finite epsilon \<and> flt (Finite 0) epsilon
   \<and> L1norm [epsilon] = [Finite (1 / 2)]
   \<and> \<not> \<bar>1 - sum_list (map value_of (L1norm [epsilon]))\<bar> \<le> 1 / 1000000
   \<and> L1norm [Finite (3 / 16777216), Finite 1] =
        [Finite (12582897 / 70368744177664), Finite (4194299 / 4194304)]
   \<and> 1 \<le> sum_list (map value_of [Finite (3 / 16777216), Finite 1])
   \<and> \<not> \<bar>1 - sum_list (map value_of (L1norm [Finite (3 / 16777216), Finite 1]))\<bar>
         \<le> 1 / 1000000"
  by (simp add: epsilon_def L1norm_epsilon [unfolded epsilon_def] L1norm_rounding value_of_def
      is_binary32_def is_finite_def fl_epsilon)




text \<open>
  Claim C9, as amended. After a successful \<open>process\<close> on a constructed object whose cell
  step \<open>stride / cellsize\<close> is positive and at most \<open>2^64 - 2^31\<close>, two calls of
  \<open>retrieve\<close> with the same valid window both return, both return the descriptor, and
  leave the object, with its grid and maps, as \<open>process\<close> left it. Moreover a call that
  returns, whatever its window and result, returns the object unchanged.
\<close>

theorem retrieve_pure_read:
  assumes "valid_config h"
    and "stride_unit h \<noteq> 0"
    and "unat (stride_unit h) + 2 ^ 31 \<le> 2 ^ 64"
    and "fst (process img h) = None"
    and "valid_window window (snd (process img h))"
  shows "retrieve_twice window (snd (process img h)) =
           Some (Inr (descriptor (snd (process img h)) window),
                 Inr (descriptor (snd (process img h)) window),
                 snd (process img h))
       \<and> (\<forall>w s r s'. retrieve w s = Some (r, s') \<longrightarrow> s' = s)"
proof (intro conjI allI impI)
  have "retrieve window (snd (process img h)) =
           Some (Inr (descriptor (snd (process img h)) window), snd (process img h))"
    using assms by (intro retrieve_descriptor_aux)
  then show "retrieve_twice window (snd (process img h)) =
            Some (Inr (descriptor (snd (process img h)) window),
                  Inr (descriptor (snd (process img h)) window),
                  snd (process img h))"
    by (simp add: retrieve_twice_def)
next
  fix w s r s'
  assume "retrieve w s = Some (r, s')"
  then show "s' = s" by (rule retrieve_state)
qed

text \<open>
  The theorem on the 2 by 2 image, with block size 2, cell size 1 and stride 1.
\<close>

theorem retrieve_pure_read_witness:
  "retrieve_twice (example_window 0 0 2 2)
     (snd (process (example_image 2 2 100) (example_hog 2 1 1 9)))
   = Some (Inr [0,0,0,0,0,1,0,0,0, 0,0,0,0,0,1,0,0,0, 0,0,0,0,0,1,0,0,0, 0,0,0,0,0,1,0,0,0],
           Inr [0,0,0,0,0,1,0,0,0, 0,0,0,0,0,1,0,0,0, 0,0,0,0,0,1,0,0,0, 0,0,0,0,0,1,0,0,0],
           snd (process (example_image 2 2 100) (example_hog 2 1 1 9)))"
proof -
  have su: "stride_unit (example_hog 2 1 1 9) \<noteq> 0"
    "unat (stride_unit (example_hog 2 1 1 9)) + 2 ^ 31 \<le> 2 ^ 64"
    by (simp_all add: small_hog_fields)
  show ?thesis
    using retrieve_pure_read [OF small_config su small_process small_window]
    by (simp only: small_desc)
qed

text \<open>
  Claim C9 as stated fails. The object with block size 2, cell size 1 and stride 0 is
  constructed, \<open>process\<close> succeeds on the 2 by 2 image and the window \<open>(0, 0, 2, 2)\<close> is
  valid, and the first of the two calls of \<open>retrieve\<close> does not return: there are no two
  outputs to compare.
\<close>

theorem retrieve_twice_counterexample:
  "HOG 2 1 0 9 GRADIENT_UNSIGNED none = Inr (example_hog 2 1 0 9)
   \<and> fst (process (example_image 2 2 100) (example_hog 2 1 0 9)) = None
   \<and> valid_window (example_window 0 0 2 2)
         (snd (process (example_image 2 2 100) (example_hog 2 1 0 9)))
   \<and> retrieve_twice (example_window 0 0 2 2)
         (snd (process (example_image 2 2 100) (example_hog 2 1 0 9))) = None"
  using zero_hog zero_process zero_window
  by (simp add: retrieve_twice_def zero_retrieve)

text \<open>
  Claim C10. After a successful \<open>process\<close> of a 3 by 3 image with block and cell size 3,
  the window \<open>(-1, 0, 3, 3)\<close> has a negative origin, is as large as a block, and has
  \<open>x + width \<le> map_width\<close>. Both checks of \<open>retrieve\<close> pass. The conversion of
  \<open>x = -1\<close> to cell units gives 1431655765, and the first read of
  \<open>_cell_hists[0][1431655765]\<close> is outside the grid, which has one cell.
\<close>

theorem retrieve_negative_origin:
  "fst (process (example_image 3 3 100) (example_hog 3 3 3 9)) = None
   \<and> sint (rect_x (example_window (- 1) 0 3 3)) < 0
   \<and> uint (blocksize (snd (process (example_image 3 3 100) (example_hog 3 3 3 9))))
        \<le> sint (rect_width (example_window (- 1) 0 3 3))
   \<and> uint (blocksize (snd (process (example_image 3 3 100) (example_hog 3 3 3 9))))
        \<le> sint (rect_height (example_window (- 1) 0 3 3))
   \<and> sint (rect_x (example_window (- 1) 0 3 3)) + sint (rect_width (example_window (- 1) 0 3 3))
        \<le> sint (mat_cols (mag (snd (process (example_image 3 3 100) (example_hog 3 3 3 9)))))
   \<and> to_cell_units (rect_x (example_window (- 1) 0 3 3))
        (cellsize (snd (process (example_image 3 3 100) (example_hog 3 3 3 9)))) = 1431655765
   \<and> retrieve (example_window (- 1) 0 3 3)
        (snd (process (example_image 3 3 100) (example_hog 3 3 3 9)))
       = Some (Inl OutOfBoundsAccess,
               snd (process (example_image 3 3 100) (example_hog 3 3 3 9)))"
  using three_process
  by (simp add: retrieve_eval three_fields)

end
